theory Spec2Isabelle
  imports Complex_Main "HOL-Library.Word" "HOL-Library.Signed_Division"
begin

section \<open>The environment: the file system as the traversal sees it\<close>

text \<open>
  \<^verbatim>\<open>mdu\<close> (src/mdu) talks to the file system through \<^verbatim>\<open>lstat\<close> and through
  \<^verbatim>\<open>opendir\<close>/\<^verbatim>\<open>readdir\<close>. Of \<^verbatim>\<open>struct stat\<close> the program reads two fields:
  \<^verbatim>\<open>st_mode\<close> (only through \<^verbatim>\<open>S_ISDIR\<close>) and \<^verbatim>\<open>st_blocks\<close>. The file type is kept as an
  enumeration of the POSIX file types; \<^verbatim>\<open>st_blocks\<close> is a 64-bit value.
\<close>

datatype ftype = S_IFREG | S_IFDIR | S_IFLNK | S_IFIFO | S_IFSOCK | S_IFCHR | S_IFBLK

record stat =
  st_mode :: ftype
  st_blocks :: "64 word"

definition S_ISDIR :: "stat \<Rightarrow> bool" where
  "S_ISDIR st \<longleftrightarrow> st_mode st = S_IFDIR"

text \<open>
  The file system is fixed during one run. \<open>lstat fs p = None\<close> is a failing \<^verbatim>\<open>lstat\<close>;
  \<open>readdir fs p = None\<close> is a failing \<^verbatim>\<open>opendir\<close>, and \<open>Some names\<close> is the sequence of
  \<^verbatim>\<open>d_name\<close>s that the \<^verbatim>\<open>readdir\<close> loop sees, the entries \<^verbatim>\<open>.\<close> and \<^verbatim>\<open>..\<close> included. The
  loop stops at the first \<^verbatim>\<open>NULL\<close> and does not look at \<^verbatim>\<open>errno\<close>: a failing \<^verbatim>\<open>readdir\<close> ends
  the sequence as the end of the directory does. \<open>readdir_error fs p\<close> tells which of the
  two it was: it holds when the \<^verbatim>\<open>NULL\<close> that ended the loop on \<open>p\<close> was a failure of \<^verbatim>\<open>readdir\<close>
  (\<^verbatim>\<open>errno\<close> set), so that the enumeration of \<open>p\<close> broke off. No function of the program
  reads it.
\<close>

record filesystem =
  lstat :: "string \<Rightarrow> stat option"
  readdir :: "string \<Rightarrow> string list option"
  readdir_error :: "string \<Rightarrow> bool"


section \<open>thread.h, thread.c: the shared traversal context\<close>

text \<open>
  \<^verbatim>\<open>struct ThreadData\<close>. The linked list \<^verbatim>\<open>queue_head\<close> .. \<^verbatim>\<open>queue_tail\<close> is the list
  \<open>queue\<close> (head first). \<^verbatim>\<open>off_t total_size\<close> is a 64-bit and \<^verbatim>\<open>int pending\<close> a 32-bit
  two's complement value; arithmetic on them wraps here (C leaves signed overflow
  undefined), and the theorems name the ranges they need. The C field \<^verbatim>\<open>done\<close> is named
  \<open>done_flag\<close> here; it and \<^verbatim>\<open>error_occurred\<close> only ever hold 0 or 1. The condition
  variable \<^verbatim>\<open>cond\<close> is the set of the workers blocked in \<^verbatim>\<open>pthread_cond_wait\<close>. The
  mutex has no field: every region between \<^verbatim>\<open>pthread_mutex_lock\<close> and the matching
  \<^verbatim>\<open>pthread_mutex_unlock\<close> (or \<^verbatim>\<open>pthread_cond_wait\<close>) is one function below and one
  atomic transition of a worker. Calls to \<^verbatim>\<open>malloc\<close>, \<^verbatim>\<open>realloc\<close>, \<^verbatim>\<open>strdup\<close> and the pthread
  primitives are taken to succeed (when one fails the program prints a message and exits
  with \<^verbatim>\<open>EXIT_FAILURE\<close> at once); the diagnostics on standard error are left out.
\<close>

record ThreadData =
  cond :: "nat set"
  queue :: "string list"
  total_size :: "64 word"
  pending :: "32 word"
  done_flag :: bool
  error_occurred :: bool

definition thread_data_init :: ThreadData where
  "thread_data_init =
     \<lparr>cond = {}, queue = [], total_size = 0, pending = 0, done_flag = False,
      error_occurred = False\<rparr>"

definition enqueue :: "ThreadData \<Rightarrow> string \<Rightarrow> ThreadData" where
  "enqueue d path = d\<lparr>queue := queue d @ [path]\<rparr>"

definition dequeue :: "ThreadData \<Rightarrow> string option \<times> ThreadData" where
  "dequeue d = (case queue d of [] \<Rightarrow> (None, d) | path # rest \<Rightarrow> (Some path, d\<lparr>queue := rest\<rparr>))"

definition pthread_cond_broadcast :: "ThreadData \<Rightarrow> ThreadData" where
  "pthread_cond_broadcast d = d\<lparr>cond := {}\<rparr>"


section \<open>worker.c: processing one path\<close>

definition handle_file :: "stat \<Rightarrow> ThreadData \<Rightarrow> ThreadData" where
  "handle_file st d = (let size = st_blocks st * 512 in d\<lparr>total_size := total_size d + size\<rparr>)"

definition construct_path :: "string \<Rightarrow> string \<Rightarrow> string" where
  "construct_path dir_path entry_name = dir_path @ ''/'' @ entry_name"

text \<open>The \<^verbatim>\<open>readdir\<close> loop of \<^verbatim>\<open>handle_directory\<close>: the paths collected in \<^verbatim>\<open>paths_to_enqueue\<close>.\<close>

definition paths_to_enqueue :: "string \<Rightarrow> string list \<Rightarrow> string list" where
  "paths_to_enqueue path names =
     map (construct_path path) (filter (\<lambda>name. \<not> (name = ''.'' \<or> name = ''..'')) names)"

definition handle_directory :: "filesystem \<Rightarrow> string \<Rightarrow> ThreadData \<Rightarrow> ThreadData" where
  "handle_directory fs path d =
     (case readdir fs path of
        None \<Rightarrow> d\<lparr>error_occurred := True\<rparr>
      | Some names \<Rightarrow>
          (let paths = paths_to_enqueue path names;
               pending_increment = length paths;
               d1 = foldl enqueue d paths;
               d2 = d1\<lparr>pending := pending d1 + of_nat pending_increment\<rparr>
           in pthread_cond_broadcast d2))"

definition update_error_status :: "ThreadData \<Rightarrow> bool \<Rightarrow> ThreadData" where
  "update_error_status d error_in_this_call =
     (let d1 = d\<lparr>pending := pending d - 1\<rparr>;
          d2 = (if error_in_this_call then d1\<lparr>error_occurred := True\<rparr> else d1)
      in if pending d2 = 0 \<and> queue d2 = []
         then pthread_cond_broadcast (d2\<lparr>done_flag := True\<rparr>)
         else d2)"

text \<open>
  \<^verbatim>\<open>process_path\<close> as one worker runs it when no other worker interleaves: the
  composition of its critical sections in program order.
\<close>

definition process_path :: "filesystem \<Rightarrow> string \<Rightarrow> ThreadData \<Rightarrow> ThreadData" where
  "process_path fs path d =
     (case lstat fs path of
        None \<Rightarrow> update_error_status d True
      | Some st \<Rightarrow>
          (let d1 = handle_file st d;
               d2 = (if S_ISDIR st then handle_directory fs path d1 else d1)
           in update_error_status d2 False))"


section \<open>worker.c: the worker threads\<close>

text \<open>
  The control points of \<^verbatim>\<open>worker_thread\<close> between two critical sections:
  \<^item> \<open>WAIT\<close>: before the lock at the top of the loop, or inside \<^verbatim>\<open>pthread_cond_wait\<close>
    when the worker is in \<open>cond\<close>;
  \<^item> \<open>PROCESS path\<close>: a path was dequeued, \<^verbatim>\<open>process_path\<close> starts;
  \<^item> \<open>HANDLE_DIR path\<close>: \<^verbatim>\<open>handle_file\<close> has run and the path is a directory;
  \<^item> \<open>UPDATE e\<close>: before \<^verbatim>\<open>update_error_status(data, e)\<close>;
  \<^item> \<open>EXIT\<close>: after \<^verbatim>\<open>pthread_exit\<close>.
\<close>

datatype pc = WAIT | PROCESS string | HANDLE_DIR string | UPDATE bool | EXIT

record sys =
  shared :: ThreadData
  pcs :: "pc list"

text \<open>
  One transition of worker \<open>i\<close>: the local file-system calls up to and including the next
  critical section. \<open>None\<close>: the worker cannot move (it is blocked on the condition variable,
  has exited, or does not exist). A worker that leaves \<^verbatim>\<open>pthread_cond_wait\<close> re-tests the
  condition of the inner loop with the mutex held, which is the test of \<open>WAIT\<close> again.
\<close>

definition worker_step :: "filesystem \<Rightarrow> nat \<Rightarrow> sys \<Rightarrow> sys option" where
  "worker_step fs i s =
     (if length (pcs s) \<le> i then None
      else let d = shared s in
        case pcs s ! i of
          WAIT \<Rightarrow>
            if i \<in> cond d then None
            else if queue d = [] \<and> \<not> done_flag d
              then Some (s\<lparr>shared := d\<lparr>cond := insert i (cond d)\<rparr>\<rparr>)
            else if queue d = [] \<and> done_flag d
              then Some (s\<lparr>pcs := (pcs s)[i := EXIT]\<rparr>)
            else (case dequeue d of
                    (Some path, d') \<Rightarrow> Some \<lparr>shared = d', pcs = (pcs s)[i := PROCESS path]\<rparr>
                  | (None, d') \<Rightarrow> Some \<lparr>shared = d', pcs = pcs s\<rparr>)
        | PROCESS path \<Rightarrow>
            (case lstat fs path of
               None \<Rightarrow> Some (s\<lparr>pcs := (pcs s)[i := UPDATE True]\<rparr>)
             | Some st \<Rightarrow>
                 Some \<lparr>shared = handle_file st d,
                       pcs = (pcs s)[i := (if S_ISDIR st then HANDLE_DIR path else UPDATE False)]\<rparr>)
        | HANDLE_DIR path \<Rightarrow>
            Some \<lparr>shared = handle_directory fs path d, pcs = (pcs s)[i := UPDATE False]\<rparr>
        | UPDATE e \<Rightarrow>
            Some \<lparr>shared = update_error_status d e, pcs = (pcs s)[i := WAIT]\<rparr>
        | EXIT \<Rightarrow> None)"

text \<open>
  POSIX lets \<^verbatim>\<open>pthread_cond_wait\<close> return without a broadcast. Such a spurious wakeup
  takes a blocked worker out of the wait set and changes nothing else.
\<close>

definition spurious_wakeup :: "nat \<Rightarrow> sys \<Rightarrow> sys option" where
  "spurious_wakeup i s =
     (if i \<in> cond (shared s)
      then Some (s\<lparr>shared := (shared s)\<lparr>cond := cond (shared s) - {i}\<rparr>\<rparr>)
      else None)"

text \<open>
  What can happen next: worker \<open>i\<close> makes its transition, or worker \<open>i\<close> wakes up
  spuriously. A schedule is a sequence of such events; its run is \<open>None\<close> when one of
  them cannot happen.
\<close>

datatype event = is_Step: Step nat | is_Wakeup: Wakeup nat

definition event_step :: "filesystem \<Rightarrow> event \<Rightarrow> sys \<Rightarrow> sys option" where
  "event_step fs e s =
     (case e of Step i \<Rightarrow> worker_step fs i s | Wakeup i \<Rightarrow> spurious_wakeup i s)"

fun run :: "filesystem \<Rightarrow> event list \<Rightarrow> sys \<Rightarrow> sys option" where
  "run fs [] s = Some s"
| "run fs (e # sched) s =
     (case event_step fs e s of None \<Rightarrow> None | Some s' \<Rightarrow> run fs sched s')"

text \<open>\<^verbatim>\<open>pthread_join\<close> of every worker returns when all of them have exited.\<close>

definition joined :: "sys \<Rightarrow> bool" where
  "joined s \<longleftrightarrow> list_all (\<lambda>w. w = EXIT) (pcs s)"


section \<open>mdu.c: the orchestrator\<close>

definition EXIT_SUCCESS :: int where "EXIT_SUCCESS = 0"
definition EXIT_FAILURE :: int where "EXIT_FAILURE = 1"

text \<open>
  The state main builds for one top-level path before the workers start:
  \<^verbatim>\<open>thread_data_init\<close>, \<^verbatim>\<open>pending = 1\<close>, the path enqueued, \<open>num_threads\<close> workers created.
\<close>

definition start_worker_threads :: "nat \<Rightarrow> string \<Rightarrow> sys" where
  "start_worker_threads num_threads path =
     \<lparr>shared = enqueue (thread_data_init\<lparr>pending := 1\<rparr>) path,
      pcs = replicate num_threads WAIT\<rparr>"

text \<open>
  \<^verbatim>\<open>long total_blocks = (data->total_size + 511) / 512\<close>: 64-bit addition, then C's signed
  division, which truncates towards zero.
\<close>

definition total_blocks :: "64 word \<Rightarrow> 64 word" where
  "total_blocks bytes = word_of_int (sint (bytes + 511) sdiv 512)"

text \<open>
  \<^verbatim>\<open>int num_threads = atoi(optarg)\<close>. \<^verbatim>\<open>atoi(s)\<close> is \<^verbatim>\<open>(int) strtol(s, NULL, 10)\<close>: leading
  white space, an optional sign, then decimal digits up to the first other character;
  \<^verbatim>\<open>strtol\<close> saturates at \<^verbatim>\<open>LONG_MIN\<close> and \<^verbatim>\<open>LONG_MAX\<close> (64 bits), and the conversion to
  the 32-bit \<^verbatim>\<open>int\<close> keeps the low 32 bits. So \<^verbatim>\<open>atoi("2147483648")\<close> is \<^verbatim>\<open>INT_MIN\<close> and
  \<^verbatim>\<open>atoi("-4294967295")\<close> is 1.
\<close>

definition isspace :: "char \<Rightarrow> bool" where
  "isspace c \<longleftrightarrow> c \<in> set [CHR '' '', CHR 0x09, CHR 0x0A, CHR 0x0B, CHR 0x0C, CHR 0x0D]"

definition isdigit :: "char \<Rightarrow> bool" where
  "isdigit c \<longleftrightarrow> (48::nat) \<le> of_char c \<and> of_char c \<le> (57::nat)"

definition LONG_MIN :: int where "LONG_MIN = - (2 ^ 63)"
definition LONG_MAX :: int where "LONG_MAX = 2 ^ 63 - 1"

fun strtol_digits :: "int \<Rightarrow> string \<Rightarrow> int" where
  "strtol_digits acc [] = acc"
| "strtol_digits acc (c # cs) =
     (if isdigit c then strtol_digits (acc * 10 + (of_char c - 48)) cs else acc)"

definition strtol :: "string \<Rightarrow> int" where
  "strtol s =
     (let v = (case dropWhile isspace s of
                 [] \<Rightarrow> 0
               | c # cs \<Rightarrow>
                   if c = CHR ''-'' then - strtol_digits 0 cs
                   else if c = CHR ''+'' then strtol_digits 0 cs
                   else strtol_digits 0 (c # cs))
      in max LONG_MIN (min LONG_MAX v))"

definition atoi :: "string \<Rightarrow> 32 word" where
  "atoi s = word_of_int (strtol s)"

text \<open>
  What the \<^verbatim>\<open>getopt(argc, argv, "j:")\<close> loop sees: \<^verbatim>\<open>'j'\<close> with its \<^verbatim>\<open>optarg\<close>, or any other
  return value (\<^verbatim>\<open>'?'\<close>). The loop yields the exit status of an \<^verbatim>\<open>exit\<close> call (\<open>Inl\<close>) or
  the final \<^verbatim>\<open>num_threads\<close> (\<open>Inr\<close>), a 32-bit \<^verbatim>\<open>int\<close> read as two's complement by \<open>sint\<close>.
\<close>

datatype getopt_result = Opt_j string | Opt_other

fun parse_options :: "getopt_result list \<Rightarrow> 32 word \<Rightarrow> int + 32 word" where
  "parse_options [] num_threads = Inr num_threads"
| "parse_options (Opt_j optarg # rest) num_threads =
     (let n = atoi optarg in if sint n < 1 then Inl EXIT_FAILURE else parse_options rest n)"
| "parse_options (Opt_other # rest) num_threads = Inl EXIT_FAILURE"

definition parse_paths :: "string list \<Rightarrow> string list" where
  "parse_paths args = (if args = [] then [''.''] else args)"

text \<open>
  The loop over the top-level paths. Each path comes with the schedule its workers follow.
  A result line is the pair of the arguments of \<^verbatim>\<open>printf("%ld\t%s\n", ...)\<close>. The result is
  \<open>None\<close> when a schedule is not an execution that ends with every worker joined.
\<close>

fun main_loop ::
  "filesystem \<Rightarrow> nat \<Rightarrow> (string \<times> event list) list \<Rightarrow> int
     \<Rightarrow> (int \<times> (int \<times> string) list) option"
where
  "main_loop fs num_threads [] exit_code = Some (exit_code, [])"
| "main_loop fs num_threads ((path, sched) # rest) exit_code =
     (case run fs sched (start_worker_threads num_threads path) of
        None \<Rightarrow> None
      | Some s \<Rightarrow>
          if \<not> joined s then None
          else
            let data = shared s;
                exit_code' = (if error_occurred data then EXIT_FAILURE else exit_code);
                line = (sint (total_blocks (total_size data)), path)
            in (case main_loop fs num_threads rest exit_code' of
                  None \<Rightarrow> None
                | Some (code, lines) \<Rightarrow> Some (code, line # lines)))"

text \<open>
  \<^verbatim>\<open>main\<close>: \<open>opts\<close> is what \<^verbatim>\<open>getopt\<close> returns in turn, \<open>args\<close> the positional arguments left
  at \<^verbatim>\<open>optind\<close>, \<open>scheds\<close> one schedule per top-level path. The result is the exit status and
  the lines written to standard output.
\<close>

definition mdu_main ::
  "filesystem \<Rightarrow> getopt_result list \<Rightarrow> string list \<Rightarrow> event list list
     \<Rightarrow> (int \<times> (int \<times> string) list) option"
where
  "mdu_main fs opts args scheds =
     (case parse_options opts 1 of
        Inl code \<Rightarrow> Some (code, [])
      | Inr num_threads \<Rightarrow>
          main_loop fs (nat (sint num_threads)) (zip (parse_paths args) scheds) EXIT_SUCCESS)"


section \<open>What a traversal should measure\<close>

text \<open>
  The part of the file system a traversal from a path can reach, as a finite tree:
  \<^item> \<open>NoAccess\<close>: \<^verbatim>\<open>lstat\<close> fails;
  \<^item> \<open>Leaf st\<close>: \<^verbatim>\<open>lstat\<close> gives \<open>st\<close>, not a directory (a regular file, a symbolic link, a
    FIFO, a socket, a device);
  \<^item> \<open>Unreadable st\<close>: a directory that \<^verbatim>\<open>opendir\<close> cannot open;
  \<^item> \<open>Directory st ts\<close>: a directory whose entries other than \<^verbatim>\<open>.\<close> and \<^verbatim>\<open>..\<close> have the
    trees \<open>ts\<close>, in \<^verbatim>\<open>readdir\<close> order.

  \<open>fs_tree fs path t\<close> holds when the file system looks like \<open>t\<close> from \<open>path\<close>.
\<close>

datatype fsnode = NoAccess | Leaf stat | Unreadable stat | Directory stat "fsnode list"

fun fs_tree :: "filesystem \<Rightarrow> string \<Rightarrow> fsnode \<Rightarrow> bool" where
  "fs_tree fs path NoAccess \<longleftrightarrow> lstat fs path = None"
| "fs_tree fs path (Leaf st) \<longleftrightarrow> lstat fs path = Some st \<and> \<not> S_ISDIR st"
| "fs_tree fs path (Unreadable st) \<longleftrightarrow>
     lstat fs path = Some st \<and> S_ISDIR st \<and> readdir fs path = None"
| "fs_tree fs path (Directory st ts) \<longleftrightarrow>
     lstat fs path = Some st \<and> S_ISDIR st \<and>
     (case readdir fs path of
        None \<Rightarrow> False
      | Some names \<Rightarrow> list_all2 (fs_tree fs) (paths_to_enqueue path names) ts)"

text \<open>The sum of \<^verbatim>\<open>st_blocks\<close> over the nodes whose \<^verbatim>\<open>lstat\<close> succeeds.\<close>

fun tree_blocks :: "fsnode \<Rightarrow> nat" where
  "tree_blocks NoAccess = 0"
| "tree_blocks (Leaf st) = unat (st_blocks st)"
| "tree_blocks (Unreadable st) = unat (st_blocks st)"
| "tree_blocks (Directory st ts) = unat (st_blocks st) + sum_list (map tree_blocks ts)"

text \<open>The number of paths a traversal visits.\<close>

fun tree_nodes :: "fsnode \<Rightarrow> nat" where
  "tree_nodes (Directory st ts) = 1 + sum_list (map tree_nodes ts)"
| "tree_nodes _ = 1"

text \<open>Whether some \<^verbatim>\<open>lstat\<close> or \<^verbatim>\<open>opendir\<close> of the traversal fails.\<close>

fun tree_errors :: "fsnode \<Rightarrow> bool" where
  "tree_errors NoAccess \<longleftrightarrow> True"
| "tree_errors (Leaf st) \<longleftrightarrow> False"
| "tree_errors (Unreadable st) \<longleftrightarrow> True"
| "tree_errors (Directory st ts) \<longleftrightarrow> list_ex tree_errors ts"


section \<open>A small file system\<close>

text \<open>
  A directory \<^verbatim>\<open>r\<close> of 8 blocks with a regular file \<^verbatim>\<open>a\<close> of 16 blocks, a directory \<^verbatim>\<open>b\<close> of
  8 blocks that cannot be opened, and an entry \<^verbatim>\<open>c\<close> whose \<^verbatim>\<open>lstat\<close> fails.
\<close>

definition example_fs :: filesystem where
  "example_fs =
     \<lparr>lstat = (\<lambda>p. if p = ''r'' then Some \<lparr>st_mode = S_IFDIR, st_blocks = 8\<rparr>
                  else if p = ''r/a'' then Some \<lparr>st_mode = S_IFREG, st_blocks = 16\<rparr>
                  else if p = ''r/b'' then Some \<lparr>st_mode = S_IFDIR, st_blocks = 8\<rparr>
                  else None),
      readdir = (\<lambda>p. if p = ''r'' then Some [''.'', ''..'', ''a'', ''b'', ''c''] else None),
      readdir_error = (\<lambda>p. False)\<rparr>"

definition example_tree :: fsnode where
  "example_tree =
     Directory \<lparr>st_mode = S_IFDIR, st_blocks = 8\<rparr>
       [Leaf \<lparr>st_mode = S_IFREG, st_blocks = 16\<rparr>,
        Unreadable \<lparr>st_mode = S_IFDIR, st_blocks = 8\<rparr>,
        NoAccess]"

text \<open>
  Two workers on \<^verbatim>\<open>r\<close>: worker 0 has dequeued \<^verbatim>\<open>r\<close> and run \<^verbatim>\<open>handle_file\<close> on it, worker 1
  waits on the condition variable.
\<close>

definition expanding_state :: sys where
  "expanding_state =
     \<lparr>shared = \<lparr>cond = {1}, queue = [], total_size = 4096, pending = 1, done_flag = False,
                error_occurred = False\<rparr>,
      pcs = [HANDLE_DIR ''r'', WAIT]\<rparr>"

text \<open>
  A complete schedule of two workers on \<^verbatim>\<open>r\<close>, in which worker 1 once wakes up spuriously,
  and a complete schedule of a single worker.
\<close>

definition example_sched2 :: "event list" where
  "example_sched2 =
     map Step [0, 1] @ [Wakeup 1] @ map Step [1, 0, 0, 0, 1, 0, 1, 0, 1, 0, 1, 0, 1, 0, 1, 0, 1]"

definition example_sched1 :: "event list" where
  "example_sched1 = map Step [0, 0, 0, 0, 0, 0, 0, 0, 0, 0, 0, 0, 0, 0, 0]"

text \<open>
  Two workers on \<^verbatim>\<open>r\<close> again: worker 0 does all the work while worker 1, once the queue is
  empty, goes to wait on the condition variable. The schedule stops where worker 0 holds
  the last task and is before its \<^verbatim>\<open>update_error_status\<close>.
\<close>

definition last_update_sched :: "event list" where
  "last_update_sched = map Step [0, 0, 0, 0, 0, 0, 0, 0, 0, 0, 0, 0, 1, 0]"

definition last_update_state :: sys where
  "last_update_state =
     \<lparr>shared = \<lparr>cond = {1}, queue = [], total_size = 16384, pending = 1, done_flag = False,
                error_occurred = True\<rparr>,
      pcs = [UPDATE True, WAIT]\<rparr>"

definition finished_state :: sys where
  "finished_state =
     \<lparr>shared = \<lparr>cond = {}, queue = [], total_size = 16384, pending = 0, done_flag = True,
                error_occurred = True\<rparr>,
      pcs = [WAIT, WAIT]\<rparr>"

text \<open>
  A directory \<^verbatim>\<open>d\<close> of 8 blocks whose enumeration yields the regular file \<^verbatim>\<open>x\<close> of 8 blocks
  and then breaks off with a failing \<^verbatim>\<open>readdir\<close>. Every \<^verbatim>\<open>lstat\<close> and \<^verbatim>\<open>opendir\<close> succeeds.
\<close>

definition broken_readdir_fs :: filesystem where
  "broken_readdir_fs =
     \<lparr>lstat = (\<lambda>p. if p = ''d'' then Some \<lparr>st_mode = S_IFDIR, st_blocks = 8\<rparr>
                  else if p = ''d/x'' then Some \<lparr>st_mode = S_IFREG, st_blocks = 8\<rparr>
                  else None),
      readdir = (\<lambda>p. if p = ''d'' then Some [''.'', ''..'', ''x''] else None),
      readdir_error = (\<lambda>p. p = ''d'')\<rparr>"

definition broken_readdir_sched :: "event list" where
  "broken_readdir_sched = map Step [0, 0, 0, 0, 0, 0, 0, 0]"


section \<open>Accounting for the work that is left\<close>

text \<open>
  These notions serve the proofs only. A path has at most one tree; \<open>tree_of\<close> names it.
\<close>

definition has_tree :: "filesystem \<Rightarrow> string \<Rightarrow> bool" where
  "has_tree fs path \<longleftrightarrow> (\<exists>t. fs_tree fs path t)"

definition tree_of :: "filesystem \<Rightarrow> string \<Rightarrow> fsnode" where
  "tree_of fs path = (THE t. fs_tree fs path t)"

fun kids :: "fsnode \<Rightarrow> fsnode list" where
  "kids (Directory st ts) = ts"
| "kids _ = []"

text \<open>
  What a worker at a control point still owes: the blocks not yet added to \<open>total_size\<close>,
  the paths not yet settled, the errors not yet recorded, whether it holds a task that
  \<open>pending\<close> counts, whether what it holds is well-formed, and the number of transitions
  its task and the subtree below can still cause.
\<close>

fun pc_blocks :: "filesystem \<Rightarrow> pc \<Rightarrow> nat" where
  "pc_blocks fs (PROCESS p) = tree_blocks (tree_of fs p)"
| "pc_blocks fs (HANDLE_DIR p) = sum_list (map tree_blocks (kids (tree_of fs p)))"
| "pc_blocks fs _ = 0"

fun pc_nodes :: "filesystem \<Rightarrow> pc \<Rightarrow> nat" where
  "pc_nodes fs (PROCESS p) = tree_nodes (tree_of fs p)"
| "pc_nodes fs (HANDLE_DIR p) = tree_nodes (tree_of fs p)"
| "pc_nodes fs (UPDATE e) = 1"
| "pc_nodes fs _ = 0"

fun pc_errors :: "filesystem \<Rightarrow> pc \<Rightarrow> bool" where
  "pc_errors fs (PROCESS p) \<longleftrightarrow> tree_errors (tree_of fs p)"
| "pc_errors fs (HANDLE_DIR p) \<longleftrightarrow> tree_errors (tree_of fs p)"
| "pc_errors fs (UPDATE e) \<longleftrightarrow> e"
| "pc_errors fs _ \<longleftrightarrow> False"

fun pc_busy :: "pc \<Rightarrow> nat" where
  "pc_busy WAIT = 0"
| "pc_busy EXIT = 0"
| "pc_busy _ = 1"

fun pc_ok :: "filesystem \<Rightarrow> pc \<Rightarrow> bool" where
  "pc_ok fs (PROCESS p) \<longleftrightarrow> has_tree fs p"
| "pc_ok fs (HANDLE_DIR p) \<longleftrightarrow> has_tree fs p \<and> (\<exists>st. lstat fs p = Some st \<and> S_ISDIR st)"
| "pc_ok fs _ \<longleftrightarrow> True"

fun pc_work :: "filesystem \<Rightarrow> pc \<Rightarrow> nat" where
  "pc_work fs (PROCESS p) = 4 * tree_nodes (tree_of fs p) - 1"
| "pc_work fs (HANDLE_DIR p) = 4 * tree_nodes (tree_of fs p) - 2"
| "pc_work fs (UPDATE e) = 1"
| "pc_work fs _ = 0"

definition rem_blocks :: "filesystem \<Rightarrow> sys \<Rightarrow> nat" where
  "rem_blocks fs s =
     sum_list (map (\<lambda>p. tree_blocks (tree_of fs p)) (queue (shared s))) +
     sum_list (map (pc_blocks fs) (pcs s))"

definition rem_nodes :: "filesystem \<Rightarrow> sys \<Rightarrow> nat" where
  "rem_nodes fs s =
     sum_list (map (\<lambda>p. tree_nodes (tree_of fs p)) (queue (shared s))) +
     sum_list (map (pc_nodes fs) (pcs s))"

definition rem_errors :: "filesystem \<Rightarrow> sys \<Rightarrow> bool" where
  "rem_errors fs s \<longleftrightarrow>
     (\<exists>p \<in> set (queue (shared s)). tree_errors (tree_of fs p)) \<or>
     (\<exists>w \<in> set (pcs s). pc_errors fs w)"

definition outstanding :: "sys \<Rightarrow> nat" where
  "outstanding s = length (queue (shared s)) + sum_list (map pc_busy (pcs s))"

definition work :: "filesystem \<Rightarrow> sys \<Rightarrow> nat" where
  "work fs s =
     sum_list (map (\<lambda>p. 4 * tree_nodes (tree_of fs p)) (queue (shared s))) +
     sum_list (map (pc_work fs) (pcs s))"

text \<open>The workers that are at the top of the loop and not blocked.\<close>

definition active :: "sys \<Rightarrow> nat set" where
  "active s = {i. i < length (pcs s) \<and> pcs s ! i = WAIT \<and> i \<notin> cond (shared s)}"

definition steps_left :: "filesystem \<Rightarrow> sys \<Rightarrow> nat" where
  "steps_left fs s = (length (pcs s) + 1) * work fs s + card (active s)"

text \<open>
  The invariant of a traversal of a tree \<open>T\<close>:
  \<^item> \<open>pending\<close> counts the queued paths and the workers inside \<^verbatim>\<open>process_path\<close>;
  \<^item> only workers at the top of the loop wait on the condition variable, and only while the
    queue is empty and \<open>done\<close> is not set;
  \<^item> every path in the queue or in a worker's hands has a tree;
  \<^item> \<open>total_size\<close> and the blocks still owed add up to the blocks of \<open>T\<close>;
  \<^item> the paths still owed are at most the nodes of \<open>T\<close>;
  \<^item> an error is recorded or still owed exactly when \<open>T\<close> has one;
  \<^item> \<open>done\<close> is set exactly when nothing is outstanding;
  \<^item> a worker has exited only if \<open>done\<close> is set.
\<close>

definition traversal_inv :: "filesystem \<Rightarrow> fsnode \<Rightarrow> sys \<Rightarrow> bool" where
  "traversal_inv fs T s \<longleftrightarrow>
     pending (shared s) = of_nat (outstanding s) \<and>
     (\<forall>i \<in> cond (shared s). i < length (pcs s) \<and> pcs s ! i = WAIT) \<and>
     (cond (shared s) \<noteq> {} \<longrightarrow> queue (shared s) = [] \<and> \<not> done_flag (shared s)) \<and>
     (\<forall>p \<in> set (queue (shared s)). has_tree fs p) \<and>
     (\<forall>w \<in> set (pcs s). pc_ok fs w) \<and>
     total_size (shared s) + of_nat (512 * rem_blocks fs s) = of_nat (512 * tree_blocks T) \<and>
     rem_nodes fs s \<le> tree_nodes T \<and>
     (tree_errors T \<longleftrightarrow> error_occurred (shared s) \<or> rem_errors fs s) \<and>
     (done_flag (shared s) \<longleftrightarrow> outstanding s = 0) \<and>
     (EXIT \<in> set (pcs s) \<longrightarrow> done_flag (shared s))"


section \<open>The critical sections\<close>

lemma foldl_enqueue: "foldl enqueue d ps = d\<lparr>queue := queue d @ ps\<rparr>"
  by (induction ps arbitrary: d) (simp_all add: enqueue_def)

lemma handle_directory_Some:
  "readdir fs path = Some names \<Longrightarrow>
   handle_directory fs path d =
     d\<lparr>queue := queue d @ paths_to_enqueue path names,
       pending := pending d + of_nat (length (paths_to_enqueue path names)),
       cond := {}\<rparr>"
  by (simp add: handle_directory_def foldl_enqueue pthread_cond_broadcast_def Let_def)

lemma handle_directory_None:
  "readdir fs path = None \<Longrightarrow> handle_directory fs path d = d\<lparr>error_occurred := True\<rparr>"
  by (simp add: handle_directory_def)

lemma total_size_handle_directory [simp]:
  "total_size (handle_directory fs path d) = total_size d"
  by (cases "readdir fs path") (simp_all add: handle_directory_None handle_directory_Some)

lemma total_size_handle_file [simp]:
  "total_size (handle_file st d) = total_size d + st_blocks st * 512"
  by (simp add: handle_file_def)

lemma total_size_update_error_status [simp]:
  "total_size (update_error_status d e) = total_size d"
  by (simp add: update_error_status_def pthread_cond_broadcast_def Let_def)

lemma queue_update_error_status [simp]:
  "queue (update_error_status d e) = queue d"
  by (simp add: update_error_status_def pthread_cond_broadcast_def Let_def)

lemma pending_update_error_status [simp]:
  "pending (update_error_status d e) = pending d - 1"
  by (simp add: update_error_status_def pthread_cond_broadcast_def Let_def)

lemma error_update_error_status [simp]:
  "error_occurred (update_error_status d e) \<longleftrightarrow> error_occurred d \<or> e"
  by (simp add: update_error_status_def pthread_cond_broadcast_def Let_def)

lemmas example_defs =
  example_fs_def example_tree_def expanding_state_def example_sched1_def example_sched2_def
  last_update_sched_def last_update_state_def finished_state_def
  start_worker_threads_def thread_data_init_def S_ISDIR_def paths_to_enqueue_def
  construct_path_def

lemma worker_step_PROCESS:
  "i < length (pcs s) \<Longrightarrow> pcs s ! i = PROCESS path \<Longrightarrow>
   worker_step fs i s =
     (case lstat fs path of
        None \<Rightarrow> Some (s\<lparr>pcs := (pcs s)[i := UPDATE True]\<rparr>)
      | Some st \<Rightarrow>
          Some \<lparr>shared = handle_file st (shared s),
                pcs = (pcs s)[i := (if S_ISDIR st then HANDLE_DIR path else UPDATE False)]\<rparr>)"
  by (simp add: worker_step_def)

lemma worker_step_HANDLE_DIR:
  "i < length (pcs s) \<Longrightarrow> pcs s ! i = HANDLE_DIR path \<Longrightarrow>
   worker_step fs i s =
     Some \<lparr>shared = handle_directory fs path (shared s), pcs = (pcs s)[i := UPDATE False]\<rparr>"
  by (simp add: worker_step_def)

lemma worker_step_UPDATE:
  "i < length (pcs s) \<Longrightarrow> pcs s ! i = UPDATE e \<Longrightarrow>
   worker_step fs i s =
     Some \<lparr>shared = update_error_status (shared s) e, pcs = (pcs s)[i := WAIT]\<rparr>"
  by (simp add: worker_step_def)

text \<open>
  The critical sections and the transitions agree: a worker that holds a path and is the
  only one to move reaches the top of its loop again with \<^verbatim>\<open>process_path\<close> applied to the
  shared data.
\<close>

lemma process_path_run:
  assumes i: "i < length (pcs s)" and pc: "pcs s ! i = PROCESS path"
  shows "\<exists>k. run fs (replicate k (Step i)) s =
           Some \<lparr>shared = process_path fs path (shared s), pcs = (pcs s)[i := WAIT]\<rparr>"
proof (cases "lstat fs path")
  case None
  let ?s1 = "s\<lparr>pcs := (pcs s)[i := UPDATE True]\<rparr>"
  have 1: "worker_step fs i s = Some ?s1"
    using i pc None by (simp add: worker_step_PROCESS)
  have 2: "worker_step fs i ?s1 =
      Some \<lparr>shared = update_error_status (shared s) True, pcs = (pcs s)[i := WAIT]\<rparr>"
    using i by (simp add: worker_step_def)
  have "run fs (replicate 2 (Step i)) s =
      Some \<lparr>shared = process_path fs path (shared s), pcs = (pcs s)[i := WAIT]\<rparr>"
    using 1 2 None by (simp add: numeral_2_eq_2 event_step_def process_path_def)
  then show ?thesis ..
next
  case (Some st)
  show ?thesis
  proof (cases "S_ISDIR st")
    case False
    let ?s1 = "\<lparr>shared = handle_file st (shared s), pcs = (pcs s)[i := UPDATE False]\<rparr>"
    have 1: "worker_step fs i s = Some ?s1"
      using i pc Some False by (simp add: worker_step_PROCESS)
    have 2: "worker_step fs i ?s1 =
        Some \<lparr>shared = update_error_status (handle_file st (shared s)) False,
              pcs = (pcs s)[i := WAIT]\<rparr>"
      using i by (simp add: worker_step_def)
    have "run fs (replicate 2 (Step i)) s =
        Some \<lparr>shared = process_path fs path (shared s), pcs = (pcs s)[i := WAIT]\<rparr>"
      using 1 2 Some False by (simp add: numeral_2_eq_2 event_step_def process_path_def)
    then show ?thesis ..
  next
    case True
    let ?s1 = "\<lparr>shared = handle_file st (shared s), pcs = (pcs s)[i := HANDLE_DIR path]\<rparr>"
    let ?s2 = "\<lparr>shared = handle_directory fs path (handle_file st (shared s)),
                pcs = (pcs s)[i := UPDATE False]\<rparr>"
    have 1: "worker_step fs i s = Some ?s1"
      using i pc Some True by (simp add: worker_step_PROCESS)
    have 2: "worker_step fs i ?s1 = Some ?s2"
      using i by (simp add: worker_step_def)
    have 3: "worker_step fs i ?s2 =
        Some \<lparr>shared = update_error_status (handle_directory fs path (handle_file st (shared s)))
                         False,
              pcs = (pcs s)[i := WAIT]\<rparr>"
      using i by (simp add: worker_step_def)
    have "run fs (replicate 3 (Step i)) s =
        Some \<lparr>shared = process_path fs path (shared s), pcs = (pcs s)[i := WAIT]\<rparr>"
      using 1 2 3 Some True by (simp add: numeral_3_eq_3 event_step_def process_path_def)
    then show ?thesis ..
  qed
qed


section \<open>Expanding a directory\<close>

text \<open>
  C2 (as amended). The claim puts the parent's own decrement of \<open>pending\<close> into the lock
  acquisition that pushes the children. In \<^verbatim>\<open>handle_directory\<close> that critical section pushes
  the K children, adds K to \<open>pending\<close>, broadcasts and unlocks, and the worker is then before
  \<^verbatim>\<open>update_error_status\<close>; the decrement by 1 is the next critical section of that worker, a
  second lock acquisition, which leaves the queue as it is.
\<close>

theorem expansion_then_separate_decrement:
  assumes "i < length (pcs s)" and "pcs s ! i = HANDLE_DIR path"
    and "readdir fs path = Some names"
  shows "\<exists>s'. worker_step fs i s = Some s' \<and>
           queue (shared s') = queue (shared s) @ paths_to_enqueue path names \<and>
           pending (shared s') =
             pending (shared s) + of_nat (length (paths_to_enqueue path names)) \<and>
           cond (shared s') = {} \<and>
           pcs s' ! i = UPDATE False \<and>
           (\<exists>s''. worker_step fs i s' = Some s'' \<and>
              pending (shared s'') = pending (shared s') - 1 \<and>
              queue (shared s'') = queue (shared s') \<and>
              pcs s'' ! i = WAIT)"
proof -
  let ?s' = "\<lparr>shared = handle_directory fs path (shared s), pcs = (pcs s)[i := UPDATE False]\<rparr>"
  have 1: "worker_step fs i s = Some ?s'"
    using assms(1,2) by (rule worker_step_HANDLE_DIR)
  have 2: "i < length (pcs ?s')" "pcs ?s' ! i = UPDATE False"
    using assms(1) by simp_all
  have 3: "worker_step fs i ?s' =
      Some \<lparr>shared = update_error_status (shared ?s') False, pcs = (pcs ?s')[i := WAIT]\<rparr>"
    using 2 by (rule worker_step_UPDATE)
  show ?thesis
    using 1 2 3 assms(1,3) by (simp add: handle_directory_Some)
qed

theorem expansion_then_separate_decrement_witness:
  "0 < length (pcs expanding_state) \<and> pcs expanding_state ! 0 = HANDLE_DIR ''r'' \<and>
   readdir example_fs ''r'' = Some [''.'', ''..'', ''a'', ''b'', ''c''] \<and>
   (\<exists>s'. worker_step example_fs 0 expanding_state = Some s' \<and>
      queue (shared s') = [''r/a'', ''r/b'', ''r/c''] \<and> pending (shared s') = 4 \<and>
      (\<exists>s''. worker_step example_fs 0 s' = Some s'' \<and> pending (shared s'') = 3))"
proof -
  have h: "0 < length (pcs expanding_state)" "pcs expanding_state ! 0 = HANDLE_DIR ''r''"
    "readdir example_fs ''r'' = Some [''.'', ''..'', ''a'', ''b'', ''c'']"
    by (simp_all add: example_defs)
  from expansion_then_separate_decrement [OF h]
  obtain s' s'' where
    "worker_step example_fs 0 expanding_state = Some s'"
    "queue (shared s') = queue (shared expanding_state) @
        paths_to_enqueue ''r'' [''.'', ''..'', ''a'', ''b'', ''c'']"
    "pending (shared s') = pending (shared expanding_state) +
        of_nat (length (paths_to_enqueue ''r'' [''.'', ''..'', ''a'', ''b'', ''c'']))"
    "worker_step example_fs 0 s' = Some s''"
    "pending (shared s'') = pending (shared s') - 1"
    by blast
  then show ?thesis using h by (simp add: example_defs)
qed

text \<open>
  C2 as stated fails: with three children and \<open>pending = 1\<close>, the critical section of
  \<^verbatim>\<open>handle_directory\<close> ends with \<open>pending = 4\<close>, not \<open>1 + 3 - 1\<close>.
\<close>

theorem expansion_critical_section_counterexample:
  "worker_step example_fs 0 expanding_state =
     Some \<lparr>shared = \<lparr>cond = {}, queue = [''r/a'', ''r/b'', ''r/c''], total_size = 4096,
                     pending = 4, done_flag = False, error_occurred = False\<rparr>,
           pcs = [UPDATE False, WAIT]\<rparr> \<and>
   pending (shared expanding_state) + 3 - 1 \<noteq> (4 :: 32 word)"
  by (simp add: worker_step_def handle_directory_Some example_defs)


section \<open>What one path contributes\<close>

text \<open>
  C9. Whenever \<^verbatim>\<open>lstat\<close> succeeds on a path, \<^verbatim>\<open>process_path\<close> adds \<open>st_blocks * 512\<close> to
  \<open>total_size\<close>, whatever the file type is; the worker's transition from \<open>PROCESS\<close> is where
  it happens.
\<close>

theorem lstat_success_counts_blocks:
  assumes "lstat fs path = Some st"
  shows "total_size (process_path fs path d) = total_size d + st_blocks st * 512 \<and>
         (i < length (pcs s) \<and> pcs s ! i = PROCESS path \<longrightarrow>
            (\<exists>s'. worker_step fs i s = Some s' \<and>
               total_size (shared s') = total_size (shared s) + st_blocks st * 512))"
  using assms by (simp add: process_path_def Let_def worker_step_def)

theorem lstat_success_counts_blocks_witness:
  "lstat \<lparr>lstat = (\<lambda>p. Some \<lparr>st_mode = S_IFLNK, st_blocks = 3\<rparr>), readdir = (\<lambda>p. None),
      readdir_error = (\<lambda>p. False)\<rparr> ''link''
     = Some \<lparr>st_mode = S_IFLNK, st_blocks = 3\<rparr> \<and>
   total_size (process_path \<lparr>lstat = (\<lambda>p. Some \<lparr>st_mode = S_IFLNK, st_blocks = 3\<rparr>), readdir = (\<lambda>p. None),
      readdir_error = (\<lambda>p. False)\<rparr>
      ''link'' (thread_data_init\<lparr>pending := 1\<rparr>)) = 1536"
  using lstat_success_counts_blocks
    [of "\<lparr>lstat = (\<lambda>p. Some \<lparr>st_mode = S_IFLNK, st_blocks = 3\<rparr>), readdir = (\<lambda>p. None),
      readdir_error = (\<lambda>p. False)\<rparr>"
        "''link''" "\<lparr>st_mode = S_IFLNK, st_blocks = 3\<rparr>" "thread_data_init\<lparr>pending := 1\<rparr>"]
  by (simp add: thread_data_init_def)

text \<open>
  C10. When \<^verbatim>\<open>opendir\<close> fails on a directory, \<^verbatim>\<open>handle_file\<close> has already added the
  directory's own blocks and \<^verbatim>\<open>handle_directory\<close> only sets the error flag; after
  \<^verbatim>\<open>process_path\<close> the blocks are counted, the error flag is set, \<open>pending\<close> is one less and
  the queue is the same.
\<close>

theorem opendir_failure_effect:
  assumes "lstat fs path = Some st" and "S_ISDIR st" and "readdir fs path = None"
  shows "handle_directory fs path (handle_file st d) = (handle_file st d)\<lparr>error_occurred := True\<rparr> \<and>
         process_path fs path d =
           update_error_status ((handle_file st d)\<lparr>error_occurred := True\<rparr>) False \<and>
         total_size (process_path fs path d) = total_size d + st_blocks st * 512 \<and>
         error_occurred (process_path fs path d) \<and>
         pending (process_path fs path d) = pending d - 1 \<and>
         queue (process_path fs path d) = queue d"
  using assms by (simp add: process_path_def Let_def handle_directory_None handle_file_def)

theorem opendir_failure_effect_witness:
  "lstat example_fs ''r/b'' = Some \<lparr>st_mode = S_IFDIR, st_blocks = 8\<rparr> \<and>
   S_ISDIR \<lparr>st_mode = S_IFDIR, st_blocks = 8\<rparr> \<and> readdir example_fs ''r/b'' = None \<and>
   process_path example_fs ''r/b''
     \<lparr>cond = {}, queue = [''r/c''], total_size = 12288, pending = 2, done_flag = False,
      error_occurred = False\<rparr> =
     \<lparr>cond = {}, queue = [''r/c''], total_size = 16384, pending = 1, done_flag = False,
      error_occurred = True\<rparr>"
  using opendir_failure_effect
    [of example_fs "''r/b''" "\<lparr>st_mode = S_IFDIR, st_blocks = 8\<rparr>"
        "\<lparr>cond = {}, queue = [''r/c''], total_size = 12288, pending = 2, done_flag = False,
          error_occurred = False\<rparr>"]
  by (simp add: example_defs handle_file_def update_error_status_def)


section \<open>The command line\<close>

lemma parse_options_bad_j:
  "Opt_j a \<in> set opts \<Longrightarrow> sint (atoi a) < 1 \<Longrightarrow> parse_options opts n = Inl EXIT_FAILURE"
proof (induction opts n rule: parse_options.induct)
  case (1 n) then show ?case by simp
next
  case (2 optarg rest n)
  then show ?case by (auto simp: Let_def)
next
  case (3 rest n) then show ?case by simp
qed

lemma parse_options_pos:
  "parse_options opts m = Inr n \<Longrightarrow> 1 \<le> sint m \<Longrightarrow> 1 \<le> sint n"
proof (induction opts m rule: parse_options.induct)
  case (1 m)
  then show ?case by simp
next
  case (2 optarg rest m)
  then show ?case by (simp add: Let_def split: if_splits)
next
  case (3 rest m)
  then show ?case by simp
qed

lemma parse_options_good:
  "\<forall>opt \<in> set opts. \<exists>a. opt = Opt_j a \<and> 1 \<le> sint (atoi a) \<Longrightarrow>
   \<exists>n. parse_options opts m = Inr n"
proof (induction opts m rule: parse_options.induct)
  case (1 m)
  then show ?case by simp
next
  case (2 optarg rest m)
  then show ?case by (simp add: Let_def)
next
  case (3 rest m)
  then show ?case by simp
qed

lemmas atoi_defs =
  atoi_def strtol_def isspace_def isdigit_def LONG_MIN_def LONG_MAX_def Let_def

lemma atoi_examples:
  "sint (atoi ''4'') = 4"
  "sint (atoi ''0'') = 0"
  "sint (atoi '' -3x'') = - 3"
  "sint (atoi ''abc'') = 0"
  "sint (atoi ''2147483647'') = 2147483647"
  "sint (atoi ''2147483648'') = - 2147483648"
  "sint (atoi ''-4294967295'') = 1"
  "sint (atoi ''99999999999999999999'') = - 1"
  by (simp_all add: atoi_defs)

text \<open>
  C7. Without \<^verbatim>\<open>-j\<close> the traversals run with one worker. A \<^verbatim>\<open>-j\<close> argument whose parsed
  value, the \<^verbatim>\<open>int\<close> that \<^verbatim>\<open>atoi\<close> returns, is less than 1 makes \<^verbatim>\<open>main\<close> exit with a non-zero
  status and no result line, whatever the file system and the schedules are: no traversal
  is run. When every option is a \<^verbatim>\<open>-j\<close> with a parsed value of at least 1, \<^verbatim>\<open>main\<close> goes on to
  the traversals with a worker count of at least 1.
\<close>

theorem worker_count_default_and_usage_error:
  "mdu_main fs [] args scheds = main_loop fs 1 (zip (parse_paths args) scheds) EXIT_SUCCESS \<and>
   (Opt_j optarg \<in> set opts \<and> sint (atoi optarg) < 1 \<longrightarrow>
      mdu_main fs opts args scheds = Some (EXIT_FAILURE, []) \<and> EXIT_FAILURE \<noteq> 0) \<and>
   ((\<forall>opt \<in> set opts. \<exists>a. opt = Opt_j a \<and> 1 \<le> sint (atoi a)) \<longrightarrow>
      (\<exists>n. parse_options opts 1 = Inr n \<and> 1 \<le> sint n \<and>
         mdu_main fs opts args scheds =
           main_loop fs (nat (sint n)) (zip (parse_paths args) scheds) EXIT_SUCCESS))"
proof (intro conjI impI)
  show "mdu_main fs [] args scheds =
      main_loop fs 1 (zip (parse_paths args) scheds) EXIT_SUCCESS"
    by (simp add: mdu_main_def)
next
  assume "Opt_j optarg \<in> set opts \<and> sint (atoi optarg) < 1"
  then have "parse_options opts 1 = Inl EXIT_FAILURE"
    using parse_options_bad_j by blast
  then show "mdu_main fs opts args scheds = Some (EXIT_FAILURE, [])"
    by (simp add: mdu_main_def)
next
  show "EXIT_FAILURE \<noteq> 0" by (simp add: EXIT_FAILURE_def)
next
  assume "\<forall>opt \<in> set opts. \<exists>a. opt = Opt_j a \<and> 1 \<le> sint (atoi a)"
  then obtain n where n: "parse_options opts 1 = Inr n"
    using parse_options_good by blast
  then have "1 \<le> sint n" by (rule parse_options_pos) simp
  with n show "\<exists>n. parse_options opts 1 = Inr n \<and> 1 \<le> sint n \<and>
      mdu_main fs opts args scheds =
        main_loop fs (nat (sint n)) (zip (parse_paths args) scheds) EXIT_SUCCESS"
    by (simp add: mdu_main_def)
qed

theorem worker_count_default_and_usage_error_witness:
  "Opt_j ''2147483648'' \<in> set [Opt_j ''4'', Opt_j ''2147483648''] \<and>
   sint (atoi ''2147483648'') < 1 \<and>
   mdu_main example_fs [Opt_j ''4'', Opt_j ''2147483648''] [''r''] [example_sched2] =
     Some (1, []) \<and>
   1 \<le> sint (atoi ''-4294967295'') \<and>
   parse_options [Opt_j ''-4294967295''] 1 = Inr 1"
proof -
  have a: "Opt_j ''2147483648'' \<in> set [Opt_j ''4'', Opt_j ''2147483648''] \<and>
      sint (atoi ''2147483648'') < 1"
    by (simp add: atoi_examples)
  have b: "\<forall>opt \<in> set [Opt_j ''-4294967295'']. \<exists>a. opt = Opt_j a \<and> 1 \<le> sint (atoi a)"
    by (simp add: atoi_examples)
  note w = worker_count_default_and_usage_error
  from w [of example_fs "[''r'']" "[example_sched2]" "''2147483648''"
      "[Opt_j ''4'', Opt_j ''2147483648'']"] a
  have 1: "mdu_main example_fs [Opt_j ''4'', Opt_j ''2147483648''] [''r''] [example_sched2] =
      Some (1, [])"
    by (simp add: EXIT_FAILURE_def)
  from w [of example_fs "[''r'']" "[example_sched2]" "''0''" "[Opt_j ''-4294967295'']"] b
  obtain n where "parse_options [Opt_j ''-4294967295''] 1 = Inr n" by blast
  moreover have "parse_options [Opt_j ''-4294967295''] 1 = Inr (atoi ''-4294967295'')"
    by (simp add: atoi_examples)
  moreover have "atoi ''-4294967295'' = 1"
    by (simp add: atoi_defs)
  ultimately have 2: "parse_options [Opt_j ''-4294967295''] 1 = Inr 1" by simp
  from a 1 2 show ?thesis by (simp add: atoi_examples)
qed


section \<open>The invariant of a traversal\<close>

subsection \<open>Trees of paths\<close>

lemma fs_tree_unique: "fs_tree fs p t \<Longrightarrow> fs_tree fs p t' \<Longrightarrow> t = t'"
proof (induction t arbitrary: p t')
  case NoAccess
  then show ?case by (cases t') auto
next
  case (Leaf st)
  then show ?case by (cases t') auto
next
  case (Unreadable st)
  then show ?case by (cases t') (auto split: option.splits)
next
  case (Directory st ts)
  from Directory.prems(1) obtain names where n: "readdir fs p = Some names"
    and l: "list_all2 (fs_tree fs) (paths_to_enqueue p names) ts"
    and st: "lstat fs p = Some st" "S_ISDIR st"
    by (auto split: option.splits)
  from Directory.prems(2) st n obtain ts' where t': "t' = Directory st ts'"
    and l': "list_all2 (fs_tree fs) (paths_to_enqueue p names) ts'"
    by (cases t') (auto split: option.splits)
  have "ts = ts'"
    using l l' Directory.IH
    by (auto simp: list_eq_iff_nth_eq list_all2_conv_all_nth)
  with t' show ?case by simp
qed

lemma tree_of_eq: "fs_tree fs p t \<Longrightarrow> tree_of fs p = t"
  unfolding tree_of_def by (rule the_equality) (auto dest: fs_tree_unique)

lemma has_tree_tree_of: "has_tree fs p \<Longrightarrow> fs_tree fs p (tree_of fs p)"
  by (auto simp: has_tree_def tree_of_eq)

lemma has_treeI: "fs_tree fs p t \<Longrightarrow> has_tree fs p"
  by (auto simp: has_tree_def)

lemma tree_of_NoAccess: "lstat fs p = None \<Longrightarrow> tree_of fs p = NoAccess"
  by (rule tree_of_eq) simp

lemma tree_of_Leaf: "lstat fs p = Some st \<Longrightarrow> \<not> S_ISDIR st \<Longrightarrow> tree_of fs p = Leaf st"
  by (rule tree_of_eq) simp

lemma tree_of_Unreadable:
  "lstat fs p = Some st \<Longrightarrow> S_ISDIR st \<Longrightarrow> readdir fs p = None \<Longrightarrow>
   tree_of fs p = Unreadable st"
  by (rule tree_of_eq) simp

lemma tree_of_Directory:
  assumes "has_tree fs p" "lstat fs p = Some st" "S_ISDIR st" "readdir fs p = Some names"
  shows "tree_of fs p = Directory st (map (tree_of fs) (paths_to_enqueue p names))"
    and "\<forall>c \<in> set (paths_to_enqueue p names). has_tree fs c"
proof -
  from assms(1) obtain t where t: "fs_tree fs p t" by (auto simp: has_tree_def)
  with assms(2-4) obtain ts where ts: "t = Directory st ts"
    and l: "list_all2 (fs_tree fs) (paths_to_enqueue p names) ts"
    by (cases t) auto
  have "map (tree_of fs) (paths_to_enqueue p names) = ts"
    using l by (induction rule: list_all2_induct) (auto simp: tree_of_eq)
  with t ts show "tree_of fs p = Directory st (map (tree_of fs) (paths_to_enqueue p names))"
    by (simp add: tree_of_eq)
  show "\<forall>c \<in> set (paths_to_enqueue p names). has_tree fs c"
    using l by (induction rule: list_all2_induct) (auto intro: has_treeI)
qed

lemma tree_nodes_pos: "0 < tree_nodes t"
  by (cases t) simp_all

subsection \<open>Lists of control points\<close>

lemma sum_list_map_update:
  fixes f :: "'a \<Rightarrow> nat"
  shows "i < length xs \<Longrightarrow>
    sum_list (map f (xs[i := y])) + f (xs ! i) = sum_list (map f xs) + f y"
proof (induction xs arbitrary: i)
  case Nil
  then show ?case by simp
next
  case (Cons x xs)
  then show ?case by (cases i) (simp_all add: add.assoc add.left_commute)
qed

lemma ex_set_update:
  "i < length xs \<Longrightarrow>
   ((\<exists>w \<in> set (xs[i := y]). P w) \<or> P (xs ! i)) = ((\<exists>w \<in> set xs. P w) \<or> P y)"
proof (induction xs arbitrary: i)
  case Nil
  then show ?case by simp
next
  case (Cons x xs)
  then show ?case by (cases i) auto
qed

lemma all_set_update:
  "\<forall>w \<in> set xs. Q w \<Longrightarrow> Q y \<Longrightarrow> \<forall>w \<in> set (xs[i := y]). Q w"
  using set_update_subset_insert [of xs i y] by auto

subsection \<open>The transitions of a worker, case by case\<close>

lemma worker_step_WAIT:
  "i < length (pcs s) \<Longrightarrow> pcs s ! i = WAIT \<Longrightarrow>
   worker_step fs i s =
     (if i \<in> cond (shared s) then None
      else if queue (shared s) = [] \<and> \<not> done_flag (shared s)
        then Some (s\<lparr>shared := (shared s)\<lparr>cond := insert i (cond (shared s))\<rparr>\<rparr>)
      else if queue (shared s) = [] \<and> done_flag (shared s)
        then Some (s\<lparr>pcs := (pcs s)[i := EXIT]\<rparr>)
      else Some \<lparr>shared = (shared s)\<lparr>queue := tl (queue (shared s))\<rparr>,
                 pcs = (pcs s)[i := PROCESS (hd (queue (shared s)))]\<rparr>)"
  by (cases "queue (shared s)") (simp_all add: worker_step_def dequeue_def Let_def)

lemma worker_step_less: "worker_step fs i s = Some s' \<Longrightarrow> i < length (pcs s)"
  by (simp add: worker_step_def split: if_splits)

lemma worker_step_cases [consumes 1, case_names block exit dequeue lstat_fail nondir isdir
    opendir_fail expand update]:
  assumes "worker_step fs i s = Some s'"
  obtains
    (block) "i < length (pcs s)" "pcs s ! i = WAIT" "i \<notin> cond (shared s)"
      "queue (shared s) = []" "\<not> done_flag (shared s)"
      "s' = s\<lparr>shared := (shared s)\<lparr>cond := insert i (cond (shared s))\<rparr>\<rparr>"
  | (exit) "i < length (pcs s)" "pcs s ! i = WAIT" "i \<notin> cond (shared s)"
      "queue (shared s) = []" "done_flag (shared s)"
      "s' = s\<lparr>pcs := (pcs s)[i := EXIT]\<rparr>"
  | (dequeue) p ps where "i < length (pcs s)" "pcs s ! i = WAIT" "i \<notin> cond (shared s)"
      "queue (shared s) = p # ps"
      "s' = \<lparr>shared = (shared s)\<lparr>queue := ps\<rparr>, pcs = (pcs s)[i := PROCESS p]\<rparr>"
  | (lstat_fail) p where "i < length (pcs s)" "pcs s ! i = PROCESS p" "lstat fs p = None"
      "s' = s\<lparr>pcs := (pcs s)[i := UPDATE True]\<rparr>"
  | (nondir) p st where "i < length (pcs s)" "pcs s ! i = PROCESS p" "lstat fs p = Some st"
      "\<not> S_ISDIR st"
      "s' = \<lparr>shared = (shared s)\<lparr>total_size := total_size (shared s) + st_blocks st * 512\<rparr>,
             pcs = (pcs s)[i := UPDATE False]\<rparr>"
  | (isdir) p st where "i < length (pcs s)" "pcs s ! i = PROCESS p" "lstat fs p = Some st"
      "S_ISDIR st"
      "s' = \<lparr>shared = (shared s)\<lparr>total_size := total_size (shared s) + st_blocks st * 512\<rparr>,
             pcs = (pcs s)[i := HANDLE_DIR p]\<rparr>"
  | (opendir_fail) p where "i < length (pcs s)" "pcs s ! i = HANDLE_DIR p"
      "readdir fs p = None"
      "s' = \<lparr>shared = (shared s)\<lparr>error_occurred := True\<rparr>, pcs = (pcs s)[i := UPDATE False]\<rparr>"
  | (expand) p names where "i < length (pcs s)" "pcs s ! i = HANDLE_DIR p"
      "readdir fs p = Some names"
      "s' = \<lparr>shared = (shared s)
                \<lparr>queue := queue (shared s) @ paths_to_enqueue p names,
                 pending := pending (shared s) + of_nat (length (paths_to_enqueue p names)),
                 cond := {}\<rparr>,
             pcs = (pcs s)[i := UPDATE False]\<rparr>"
  | (update) e where "i < length (pcs s)" "pcs s ! i = UPDATE e"
      "s' = \<lparr>shared = update_error_status (shared s) e, pcs = (pcs s)[i := WAIT]\<rparr>"
proof -
  have i: "i < length (pcs s)" using assms by (rule worker_step_less)
  show thesis
  proof (cases "pcs s ! i")
    case WAIT
    show ?thesis
    proof (cases "queue (shared s)")
      case Nil
      with assms i WAIT show ?thesis
        by (cases "done_flag (shared s)")
          (auto simp: worker_step_WAIT split: if_splits intro: block exit)
    next
      case (Cons p ps)
      with assms i WAIT show ?thesis
        by (auto simp: worker_step_WAIT split: if_splits intro: dequeue)
    qed
  next
    case (PROCESS p)
    with assms i show ?thesis
      by (auto simp: worker_step_PROCESS handle_file_def split: option.splits if_splits
          intro: lstat_fail nondir isdir)
  next
    case (HANDLE_DIR p)
    with assms i show ?thesis
      by (cases "readdir fs p")
        (auto simp: worker_step_HANDLE_DIR handle_directory_None handle_directory_Some
          intro: opendir_fail expand)
  next
    case (UPDATE e)
    with assms i show ?thesis
      by (auto simp: worker_step_UPDATE intro: update)
  next
    case EXIT
    with assms i show ?thesis by (simp add: worker_step_def)
  qed
qed

lemma length_pcs_step: "worker_step fs i s = Some s' \<Longrightarrow> length (pcs s') = length (pcs s)"
  by (cases rule: worker_step_cases) auto

lemma done_flag_update_error_status:
  "done_flag (update_error_status d e) \<longleftrightarrow>
     done_flag d \<or> (pending d - 1 = 0 \<and> queue d = [])"
  by (auto simp: update_error_status_def pthread_cond_broadcast_def Let_def)

lemma cond_update_error_status:
  "cond (update_error_status d e) = (if pending d - 1 = 0 \<and> queue d = [] then {} else cond d)"
  by (auto simp: update_error_status_def pthread_cond_broadcast_def Let_def)

subsection \<open>The pending counter\<close>

lemma busy_update:
  "i < length (pcs s) \<Longrightarrow>
   sum_list (map pc_busy ((pcs s)[i := y])) + pc_busy (pcs s ! i) =
   sum_list (map pc_busy (pcs s)) + pc_busy y"
  by (rule sum_list_map_update)

lemma outstanding_step:
  assumes "worker_step fs i s = Some s'"
  shows "pcs s ! i = WAIT \<and> outstanding s' = outstanding s \<or>
         (\<exists>p. pcs s ! i = PROCESS p) \<and> outstanding s' = outstanding s \<or>
         (\<exists>p. pcs s ! i = HANDLE_DIR p \<and> readdir fs p = None) \<and> outstanding s' = outstanding s \<or>
         (\<exists>p names. pcs s ! i = HANDLE_DIR p \<and> readdir fs p = Some names \<and>
            outstanding s' = outstanding s + length (paths_to_enqueue p names)) \<or>
         (\<exists>e. pcs s ! i = UPDATE e) \<and> Suc (outstanding s') = outstanding s"
  using assms
proof (cases rule: worker_step_cases)
  case block
  then show ?thesis by (simp add: outstanding_def)
next
  case exit
  then show ?thesis using busy_update [of i s EXIT] by (simp add: outstanding_def)
next
  case (dequeue p ps)
  then show ?thesis using busy_update [of i s "PROCESS p"] by (simp add: outstanding_def)
next
  case (lstat_fail p)
  then show ?thesis using busy_update [of i s "UPDATE True"] by (simp add: outstanding_def)
next
  case (nondir p st)
  then show ?thesis using busy_update [of i s "UPDATE False"] by (simp add: outstanding_def)
next
  case (isdir p st)
  then show ?thesis using busy_update [of i s "HANDLE_DIR p"] by (simp add: outstanding_def)
next
  case (opendir_fail p)
  then show ?thesis using busy_update [of i s "UPDATE False"] by (simp add: outstanding_def)
next
  case (expand p names)
  then show ?thesis using busy_update [of i s "UPDATE False"] by (simp add: outstanding_def)
next
  case (update e)
  then show ?thesis using busy_update [of i s WAIT] by (simp add: outstanding_def)
qed

lemma busy_le_outstanding:
  "i < length (pcs s) \<Longrightarrow> pc_busy (pcs s ! i) \<le> outstanding s"
proof -
  assume "i < length (pcs s)"
  then have "pc_busy (pcs s ! i) \<in> set (map pc_busy (pcs s))" by simp
  then have "pc_busy (pcs s ! i) \<le> sum_list (map pc_busy (pcs s))"
    by (intro member_le_sum_list) simp_all
  then show ?thesis by (simp add: outstanding_def)
qed

lemma step_counted:
  assumes "worker_step fs i s = Some s'"
    and "pending (shared s) = of_nat (outstanding s)"
  shows "pending (shared s') = of_nat (outstanding s')"
  using assms(1)
proof (cases rule: worker_step_cases)
  case (expand p names)
  with outstanding_step [OF assms(1)] assms(2) show ?thesis by auto
next
  case (update e)
  with outstanding_step [OF assms(1)] have "Suc (outstanding s') = outstanding s" by auto
  then have "of_nat (outstanding s) = (of_nat (outstanding s') + 1 :: 32 word)"
    by (metis of_nat_Suc add.commute)
  with update assms(2) show ?thesis by simp
qed (use outstanding_step [OF assms(1)] assms(2) in auto)

subsection \<open>The wait set\<close>

lemma step_waiters:
  assumes "worker_step fs i s = Some s'"
    and c: "\<forall>j \<in> cond (shared s). j < length (pcs s) \<and> pcs s ! j = WAIT"
    and e: "cond (shared s) \<noteq> {} \<longrightarrow> queue (shared s) = [] \<and> \<not> done_flag (shared s)"
  shows "(\<forall>j \<in> cond (shared s'). j < length (pcs s') \<and> pcs s' ! j = WAIT) \<and>
         (cond (shared s') \<noteq> {} \<longrightarrow> queue (shared s') = [] \<and> \<not> done_flag (shared s'))"
proof -
  have other: "pcs s ! i \<noteq> WAIT \<Longrightarrow> \<forall>j \<in> cond (shared s). j \<noteq> i"
    using c by auto
  have upd: "\<And>y. \<forall>j \<in> cond (shared s). j \<noteq> i \<Longrightarrow>
      \<forall>j \<in> cond (shared s). j < length ((pcs s)[i := y]) \<and> (pcs s)[i := y] ! j = WAIT"
    using c by (auto simp: nth_list_update)
  show ?thesis
    using assms(1)
  proof (cases rule: worker_step_cases)
    case block
    with c show ?thesis by simp
  next
    case exit
    with e have "cond (shared s) = {}" by auto
    with exit show ?thesis by simp
  next
    case (dequeue p ps)
    with e have "cond (shared s) = {}" by auto
    with dequeue show ?thesis by simp
  next
    case (lstat_fail p)
    with other upd [of "UPDATE True"] e show ?thesis by simp
  next
    case (nondir p st)
    with other upd [of "UPDATE False"] e show ?thesis by simp
  next
    case (isdir p st)
    with other upd [of "HANDLE_DIR p"] e show ?thesis by simp
  next
    case (opendir_fail p)
    with other upd [of "UPDATE False"] e show ?thesis by simp
  next
    case (expand p names)
    then show ?thesis by simp
  next
    case (update e')
    with other have o: "\<forall>j \<in> cond (shared s). j \<noteq> i" by simp
    show ?thesis
      using update upd [OF o, of WAIT] e
      by (auto simp: cond_update_error_status done_flag_update_error_status)
  qed
qed

subsection \<open>Paths in hand have trees\<close>

lemma pc_ok_nth:
  "\<forall>w \<in> set (pcs s). pc_ok fs w \<Longrightarrow> i < length (pcs s) \<Longrightarrow> pc_ok fs (pcs s ! i)"
  by simp

lemma pcs_ok_update:
  "\<forall>w \<in> set (pcs s). pc_ok fs w \<Longrightarrow> pc_ok fs y \<Longrightarrow>
   \<forall>w \<in> set ((pcs s)[i := y]). pc_ok fs w"
  by (rule all_set_update)

lemma step_tasks_ok:
  assumes "worker_step fs i s = Some s'"
    and q: "\<forall>p \<in> set (queue (shared s)). has_tree fs p"
    and w: "\<forall>w \<in> set (pcs s). pc_ok fs w"
  shows "(\<forall>p \<in> set (queue (shared s')). has_tree fs p) \<and> (\<forall>w \<in> set (pcs s'). pc_ok fs w)"
  using assms(1)
proof (cases rule: worker_step_cases)
  case block
  with q w show ?thesis by simp
next
  case exit
  with q pcs_ok_update [OF w, of EXIT i] show ?thesis by simp
next
  case (dequeue p ps)
  with q pcs_ok_update [OF w, of "PROCESS p" i] show ?thesis by simp
next
  case (lstat_fail p)
  with q pcs_ok_update [OF w, of "UPDATE True" i] show ?thesis by simp
next
  case (nondir p st)
  with q pcs_ok_update [OF w, of "UPDATE False" i] show ?thesis by simp
next
  case (isdir p st)
  with pc_ok_nth [OF w, of i] have "pc_ok fs (HANDLE_DIR p)" by simp
  with isdir q pcs_ok_update [OF w, of "HANDLE_DIR p" i] show ?thesis by simp
next
  case (opendir_fail p)
  with q pcs_ok_update [OF w, of "UPDATE False" i] show ?thesis by simp
next
  case (expand p names)
  with pc_ok_nth [OF w, of i] obtain st where "has_tree fs p" "lstat fs p = Some st" "S_ISDIR st"
    by auto
  with expand have "\<forall>c \<in> set (paths_to_enqueue p names). has_tree fs c"
    by (intro tree_of_Directory(2))
  with expand q pcs_ok_update [OF w, of "UPDATE False" i] show ?thesis by auto
next
  case (update e)
  with q pcs_ok_update [OF w, of WAIT i] show ?thesis by simp
qed

subsection \<open>Blocks still owed\<close>

lemma dir_tree_blocks:
  assumes "has_tree fs p" "lstat fs p = Some st" "S_ISDIR st"
  shows "tree_blocks (tree_of fs p) =
         unat (st_blocks st) + sum_list (map tree_blocks (kids (tree_of fs p)))"
proof (cases "readdir fs p")
  case None
  with assms show ?thesis by (simp add: tree_of_Unreadable)
next
  case (Some names)
  with assms show ?thesis by (simp add: tree_of_Directory(1))
qed

lemma blocks_update:
  "i < length (pcs s) \<Longrightarrow>
   sum_list (map (pc_blocks fs) ((pcs s)[i := y])) + pc_blocks fs (pcs s ! i) =
   sum_list (map (pc_blocks fs) (pcs s)) + pc_blocks fs y"
  by (rule sum_list_map_update)

lemma rem_blocks_step:
  assumes "worker_step fs i s = Some s'"
    and q: "\<forall>p \<in> set (queue (shared s)). has_tree fs p"
    and w: "\<forall>w \<in> set (pcs s). pc_ok fs w"
  shows "(\<exists>p st. pcs s ! i = PROCESS p \<and> lstat fs p = Some st \<and>
            total_size (shared s') = total_size (shared s) + st_blocks st * 512 \<and>
            rem_blocks fs s = rem_blocks fs s' + unat (st_blocks st)) \<or>
         (total_size (shared s') = total_size (shared s) \<and> rem_blocks fs s' = rem_blocks fs s)"
  using assms(1)
proof (cases rule: worker_step_cases)
  case block
  then show ?thesis by (simp add: rem_blocks_def)
next
  case exit
  then show ?thesis using blocks_update [of i s fs EXIT] by (simp add: rem_blocks_def)
next
  case (dequeue p ps)
  then show ?thesis using blocks_update [of i s fs "PROCESS p"] by (simp add: rem_blocks_def)
next
  case (lstat_fail p)
  then show ?thesis
    using blocks_update [of i s fs "UPDATE True"] by (simp add: rem_blocks_def tree_of_NoAccess)
next
  case (nondir p st)
  then show ?thesis
    using blocks_update [of i s fs "UPDATE False"] by (simp add: rem_blocks_def tree_of_Leaf)
next
  case (isdir p st)
  with pc_ok_nth [OF w, of i] have "has_tree fs p" by simp
  with isdir show ?thesis
    using blocks_update [of i s fs "HANDLE_DIR p"] dir_tree_blocks [of fs p st]
    by (simp add: rem_blocks_def)
next
  case (opendir_fail p)
  with pc_ok_nth [OF w, of i] obtain st where "lstat fs p = Some st" "S_ISDIR st" by auto
  with opendir_fail show ?thesis
    using blocks_update [of i s fs "UPDATE False"]
    by (simp add: rem_blocks_def tree_of_Unreadable)
next
  case (expand p names)
  with pc_ok_nth [OF w, of i] obtain st where "has_tree fs p" "lstat fs p = Some st" "S_ISDIR st"
    by auto
  with expand have "tree_of fs p = Directory st (map (tree_of fs) (paths_to_enqueue p names))"
    by (intro tree_of_Directory(1))
  with expand show ?thesis
    using blocks_update [of i s fs "UPDATE False"]
    by (simp add: rem_blocks_def comp_def)
next
  case (update e)
  then show ?thesis using blocks_update [of i s fs WAIT] by (simp add: rem_blocks_def)
qed

lemma step_blocks:
  assumes "worker_step fs i s = Some s'"
    and q: "\<forall>p \<in> set (queue (shared s)). has_tree fs p"
    and w: "\<forall>w \<in> set (pcs s). pc_ok fs w"
  shows "total_size (shared s') + of_nat (512 * rem_blocks fs s') =
         total_size (shared s) + of_nat (512 * rem_blocks fs s)"
  using rem_blocks_step [OF assms]
proof (elim disjE exE conjE)
  fix p st
  assume t: "total_size (shared s') = total_size (shared s) + st_blocks st * 512"
    and r: "rem_blocks fs s = rem_blocks fs s' + unat (st_blocks st)"
  have "(of_nat (512 * rem_blocks fs s) :: 64 word) =
        of_nat (512 * rem_blocks fs s') + st_blocks st * 512"
    unfolding r by (simp add: algebra_simps)
  with t show ?thesis by (simp add: algebra_simps)
next
  assume "total_size (shared s') = total_size (shared s)" "rem_blocks fs s' = rem_blocks fs s"
  then show ?thesis by simp
qed

subsection \<open>Paths still owed and work left\<close>

lemma nodes_update:
  "i < length (pcs s) \<Longrightarrow>
   sum_list (map (pc_nodes fs) ((pcs s)[i := y])) + pc_nodes fs (pcs s ! i) =
   sum_list (map (pc_nodes fs) (pcs s)) + pc_nodes fs y"
  by (rule sum_list_map_update)

lemma rem_nodes_step:
  assumes "worker_step fs i s = Some s'"
    and q: "\<forall>p \<in> set (queue (shared s)). has_tree fs p"
    and w: "\<forall>w \<in> set (pcs s). pc_ok fs w"
  shows "rem_nodes fs s' \<le> rem_nodes fs s"
  using assms(1)
proof (cases rule: worker_step_cases)
  case block
  then show ?thesis by (simp add: rem_nodes_def)
next
  case exit
  then show ?thesis using nodes_update [of i s fs EXIT] by (simp add: rem_nodes_def)
next
  case (dequeue p ps)
  then show ?thesis using nodes_update [of i s fs "PROCESS p"] by (simp add: rem_nodes_def)
next
  case (lstat_fail p)
  then show ?thesis
    using nodes_update [of i s fs "UPDATE True"] by (simp add: rem_nodes_def tree_of_NoAccess)
next
  case (nondir p st)
  then show ?thesis
    using nodes_update [of i s fs "UPDATE False"] by (simp add: rem_nodes_def tree_of_Leaf)
next
  case (isdir p st)
  then show ?thesis
    using nodes_update [of i s fs "HANDLE_DIR p"] by (simp add: rem_nodes_def)
next
  case (opendir_fail p)
  with pc_ok_nth [OF w, of i] obtain st where "lstat fs p = Some st" "S_ISDIR st" by auto
  with opendir_fail show ?thesis
    using nodes_update [of i s fs "UPDATE False"]
    by (simp add: rem_nodes_def tree_of_Unreadable)
next
  case (expand p names)
  with pc_ok_nth [OF w, of i] obtain st where "has_tree fs p" "lstat fs p = Some st" "S_ISDIR st"
    by auto
  with expand have "tree_of fs p = Directory st (map (tree_of fs) (paths_to_enqueue p names))"
    by (intro tree_of_Directory(1))
  with expand show ?thesis
    using nodes_update [of i s fs "UPDATE False"]
    by (simp add: rem_nodes_def comp_def)
next
  case (update e)
  then show ?thesis using nodes_update [of i s fs WAIT] by (simp add: rem_nodes_def)
qed

lemma work_update:
  "i < length (pcs s) \<Longrightarrow>
   sum_list (map (pc_work fs) ((pcs s)[i := y])) + pc_work fs (pcs s ! i) =
   sum_list (map (pc_work fs) (pcs s)) + pc_work fs y"
  by (rule sum_list_map_update)

lemma work_step:
  assumes "worker_step fs i s = Some s'"
    and q: "\<forall>p \<in> set (queue (shared s)). has_tree fs p"
    and w: "\<forall>w \<in> set (pcs s). pc_ok fs w"
  shows "work fs s' < work fs s \<or>
         work fs s' = work fs s \<and> pcs s ! i = WAIT \<and> queue (shared s) = []"
  using assms(1)
proof (cases rule: worker_step_cases)
  case block
  then show ?thesis by (simp add: work_def)
next
  case exit
  then show ?thesis using work_update [of i s fs EXIT] by (simp add: work_def)
next
  case (dequeue p ps)
  then show ?thesis
    using work_update [of i s fs "PROCESS p"] tree_nodes_pos [of "tree_of fs p"]
    by (simp add: work_def)
next
  case (lstat_fail p)
  then show ?thesis
    using work_update [of i s fs "UPDATE True"] by (simp add: work_def tree_of_NoAccess)
next
  case (nondir p st)
  then show ?thesis
    using work_update [of i s fs "UPDATE False"] by (simp add: work_def tree_of_Leaf)
next
  case (isdir p st)
  then show ?thesis
    using work_update [of i s fs "HANDLE_DIR p"] tree_nodes_pos [of "tree_of fs p"]
    by (simp add: work_def)
next
  case (opendir_fail p)
  with pc_ok_nth [OF w, of i] obtain st where "lstat fs p = Some st" "S_ISDIR st" by auto
  with opendir_fail show ?thesis
    using work_update [of i s fs "UPDATE False"]
    by (simp add: work_def tree_of_Unreadable)
next
  case (expand p names)
  with pc_ok_nth [OF w, of i] obtain st where "has_tree fs p" "lstat fs p = Some st" "S_ISDIR st"
    by auto
  with expand have "tree_of fs p = Directory st (map (tree_of fs) (paths_to_enqueue p names))"
    by (intro tree_of_Directory(1))
  with expand show ?thesis
    using work_update [of i s fs "UPDATE False"]
    by (simp add: work_def comp_def sum_list_const_mult)
next
  case (update e)
  then show ?thesis using work_update [of i s fs WAIT] by (simp add: work_def)
qed

subsection \<open>Errors still owed\<close>

lemma errors_update:
  assumes "i < length (pcs s)"
  obtains R where
    "(\<exists>w \<in> set ((pcs s)[i := y]). pc_errors fs w) = (pc_errors fs y \<or> R)"
    "(\<exists>w \<in> set (pcs s). pc_errors fs w) = (pc_errors fs (pcs s ! i) \<or> R)"
proof
  let ?R = "\<exists>j < length (pcs s). j \<noteq> i \<and> pc_errors fs (pcs s ! j)"
  show "(\<exists>w \<in> set ((pcs s)[i := y]). pc_errors fs w) = (pc_errors fs y \<or> ?R)"
  proof
    assume "\<exists>w \<in> set ((pcs s)[i := y]). pc_errors fs w"
    then obtain j where "j < length (pcs s)" "pc_errors fs ((pcs s)[i := y] ! j)"
      by (auto simp: in_set_conv_nth)
    then show "pc_errors fs y \<or> ?R"
      by (cases "j = i") auto
  next
    assume "pc_errors fs y \<or> ?R"
    then show "\<exists>w \<in> set ((pcs s)[i := y]). pc_errors fs w"
    proof
      assume "pc_errors fs y"
      moreover have "y \<in> set ((pcs s)[i := y])"
        using assms by (simp add: set_update_memI)
      ultimately show ?thesis by blast
    next
      assume ?R
      then obtain j where j: "j < length (pcs s)" "j \<noteq> i" "pc_errors fs (pcs s ! j)"
        by blast
      then have "(pcs s)[i := y] ! j \<in> set ((pcs s)[i := y])"
        by (intro nth_mem) simp
      with j show ?thesis by auto
    qed
  qed
  show "(\<exists>w \<in> set (pcs s). pc_errors fs w) = (pc_errors fs (pcs s ! i) \<or> ?R)"
  proof
    assume "\<exists>w \<in> set (pcs s). pc_errors fs w"
    then obtain j where "j < length (pcs s)" "pc_errors fs (pcs s ! j)"
      by (auto simp: in_set_conv_nth)
    then show "pc_errors fs (pcs s ! i) \<or> ?R"
      by (cases "j = i") auto
  next
    assume "pc_errors fs (pcs s ! i) \<or> ?R"
    then obtain j where "j < length (pcs s)" "pc_errors fs (pcs s ! j)"
      using assms by blast
    then show "\<exists>w \<in> set (pcs s). pc_errors fs w"
      using nth_mem by blast
  qed
qed

lemma step_errors:
  assumes "worker_step fs i s = Some s'"
    and q: "\<forall>p \<in> set (queue (shared s)). has_tree fs p"
    and w: "\<forall>w \<in> set (pcs s). pc_ok fs w"
  shows "(error_occurred (shared s') \<or> rem_errors fs s') =
         (error_occurred (shared s) \<or> rem_errors fs s)"
  using assms(1)
proof (cases rule: worker_step_cases)
  case block
  then show ?thesis by (simp add: rem_errors_def)
next
  case exit
  from exit(1) obtain R where
    "(\<exists>w \<in> set ((pcs s)[i := EXIT]). pc_errors fs w) = (pc_errors fs EXIT \<or> R)"
    "(\<exists>w \<in> set (pcs s). pc_errors fs w) = (pc_errors fs (pcs s ! i) \<or> R)"
    by (rule errors_update)
  with exit show ?thesis by (simp add: rem_errors_def)
next
  case (dequeue p ps)
  from dequeue(1) obtain R where
    "(\<exists>w \<in> set ((pcs s)[i := PROCESS p]). pc_errors fs w) = (pc_errors fs (PROCESS p) \<or> R)"
    "(\<exists>w \<in> set (pcs s). pc_errors fs w) = (pc_errors fs (pcs s ! i) \<or> R)"
    by (rule errors_update)
  with dequeue show ?thesis by (auto simp: rem_errors_def)
next
  case (lstat_fail p)
  from lstat_fail(1) obtain R where
    "(\<exists>w \<in> set ((pcs s)[i := UPDATE True]). pc_errors fs w) = (pc_errors fs (UPDATE True) \<or> R)"
    "(\<exists>w \<in> set (pcs s). pc_errors fs w) = (pc_errors fs (pcs s ! i) \<or> R)"
    by (rule errors_update)
  with lstat_fail show ?thesis by (simp add: rem_errors_def tree_of_NoAccess)
next
  case (nondir p st)
  from nondir(1) obtain R where
    "(\<exists>w \<in> set ((pcs s)[i := UPDATE False]). pc_errors fs w) = (pc_errors fs (UPDATE False) \<or> R)"
    "(\<exists>w \<in> set (pcs s). pc_errors fs w) = (pc_errors fs (pcs s ! i) \<or> R)"
    by (rule errors_update)
  with nondir show ?thesis by (simp add: rem_errors_def tree_of_Leaf)
next
  case (isdir p st)
  from isdir(1) obtain R where
    "(\<exists>w \<in> set ((pcs s)[i := HANDLE_DIR p]). pc_errors fs w) = (pc_errors fs (HANDLE_DIR p) \<or> R)"
    "(\<exists>w \<in> set (pcs s). pc_errors fs w) = (pc_errors fs (pcs s ! i) \<or> R)"
    by (rule errors_update)
  with isdir show ?thesis by (simp add: rem_errors_def)
next
  case (opendir_fail p)
  from opendir_fail(1) obtain R where R:
    "(\<exists>w \<in> set ((pcs s)[i := UPDATE False]). pc_errors fs w) = (pc_errors fs (UPDATE False) \<or> R)"
    "(\<exists>w \<in> set (pcs s). pc_errors fs w) = (pc_errors fs (pcs s ! i) \<or> R)"
    by (rule errors_update)
  from opendir_fail pc_ok_nth [OF w, of i] obtain st where "lstat fs p = Some st" "S_ISDIR st"
    by auto
  with opendir_fail R show ?thesis
    by (simp add: rem_errors_def tree_of_Unreadable)
next
  case (expand p names)
  from expand(1) obtain R where R:
    "(\<exists>w \<in> set ((pcs s)[i := UPDATE False]). pc_errors fs w) = (pc_errors fs (UPDATE False) \<or> R)"
    "(\<exists>w \<in> set (pcs s). pc_errors fs w) = (pc_errors fs (pcs s ! i) \<or> R)"
    by (rule errors_update)
  from expand pc_ok_nth [OF w, of i]
  obtain st where "has_tree fs p" "lstat fs p = Some st" "S_ISDIR st"
    by auto
  with expand have "tree_of fs p = Directory st (map (tree_of fs) (paths_to_enqueue p names))"
    by (intro tree_of_Directory(1))
  with expand R show ?thesis
    by (auto simp: rem_errors_def list_ex_iff)
next
  case (update e)
  from update(1) obtain R where
    "(\<exists>w \<in> set ((pcs s)[i := WAIT]). pc_errors fs w) = (pc_errors fs WAIT \<or> R)"
    "(\<exists>w \<in> set (pcs s). pc_errors fs w) = (pc_errors fs (pcs s ! i) \<or> R)"
    by (rule errors_update)
  with update show ?thesis by (auto simp: rem_errors_def)
qed

subsection \<open>The done flag\<close>

lemma outstanding_le_rem_nodes: "outstanding s \<le> rem_nodes fs s"
proof -
  have "length xs \<le> sum_list (map (\<lambda>p. tree_nodes (tree_of fs p)) xs)" for xs
  proof (induction xs)
    case Nil
    show ?case by simp
  next
    case (Cons p xs)
    with tree_nodes_pos [of "tree_of fs p"] show ?case by simp
  qed
  moreover have "pc_busy w \<le> pc_nodes fs w" for w
    using tree_nodes_pos by (cases w) (simp_all add: Suc_leI)
  then have "sum_list (map pc_busy (pcs s)) \<le> sum_list (map (pc_nodes fs) (pcs s))"
    by (intro sum_list_mono) simp
  ultimately show ?thesis
    unfolding outstanding_def rem_nodes_def by (intro add_mono) simp_all
qed

lemma step_done_mono:
  assumes "worker_step fs i s = Some s'" and "done_flag (shared s)"
  shows "done_flag (shared s')"
  using assms by (cases rule: worker_step_cases) (simp_all add: done_flag_update_error_status)

lemma of_nat_32_eq_0:
  assumes "n < 2 ^ 32"
  shows "(of_nat n :: 32 word) = 0 \<longleftrightarrow> n = 0"
proof -
  have "unat (of_nat n :: 32 word) = n"
    using assms by (simp add: unat_of_nat)
  then show ?thesis
    using unat_eq_0 [of "of_nat n :: 32 word"] by auto
qed

lemma step_done_ok:
  assumes st: "worker_step fs i s = Some s'"
    and c: "pending (shared s) = of_nat (outstanding s)"
    and b: "outstanding s < 2 ^ 32"
    and d: "done_flag (shared s) \<longleftrightarrow> outstanding s = 0"
  shows "done_flag (shared s') \<longleftrightarrow> outstanding s' = 0"
proof -
  have i: "i < length (pcs s)" using st by (rule worker_step_less)
  note o = outstanding_step [OF st]
  note busy = busy_le_outstanding [OF i]
  from st show ?thesis
  proof (cases rule: worker_step_cases)
    case block
    with o d show ?thesis by simp
  next
    case exit
    with o d show ?thesis by simp
  next
    case (dequeue p ps)
    with o d show ?thesis by simp
  next
    case (lstat_fail p)
    with o d show ?thesis by simp
  next
    case (nondir p st)
    with o d show ?thesis by simp
  next
    case (isdir p st)
    with o d show ?thesis by simp
  next
    case (opendir_fail p)
    with o d show ?thesis by simp
  next
    case (expand p names)
    with busy have "0 < outstanding s" by simp
    moreover from expand o
    have "outstanding s' = outstanding s + length (paths_to_enqueue p names)" by simp
    ultimately show ?thesis using expand d by simp
  next
    case (update e)
    with o have S: "Suc (outstanding s') = outstanding s" by simp
    with d have nd: "\<not> done_flag (shared s)" by simp
    from S c have "pending (shared s) = of_nat (outstanding s') + 1"
      by (metis of_nat_Suc add.commute)
    then have p: "pending (shared s) - 1 = of_nat (outstanding s')" by simp
    from S b have "outstanding s' < 2 ^ 32" by simp
    then have z: "pending (shared s) - 1 = 0 \<longleftrightarrow> outstanding s' = 0"
      unfolding p by (rule of_nat_32_eq_0)
    have "queue (shared s') = queue (shared s)" using update by simp
    then have "outstanding s' = 0 \<Longrightarrow> queue (shared s) = []"
      by (simp add: outstanding_def)
    with update nd z show ?thesis
      by (auto simp: done_flag_update_error_status)
  qed
qed

lemma step_exit_ok:
  assumes st: "worker_step fs i s = Some s'"
    and e: "EXIT \<in> set (pcs s) \<longrightarrow> done_flag (shared s)"
  shows "EXIT \<in> set (pcs s') \<longrightarrow> done_flag (shared s')"
proof
  assume x: "EXIT \<in> set (pcs s')"
  have "done_flag (shared s)"
    using st
  proof (cases rule: worker_step_cases)
    case block
    with x e show ?thesis by simp
  next
    case exit
    then show ?thesis by simp
  next
    case (dequeue p ps)
    with x set_update_subset_insert [of "pcs s" i "PROCESS p"] e show ?thesis by auto
  next
    case (lstat_fail p)
    with x set_update_subset_insert [of "pcs s" i "UPDATE True"] e show ?thesis by auto
  next
    case (nondir p st)
    with x set_update_subset_insert [of "pcs s" i "UPDATE False"] e show ?thesis by auto
  next
    case (isdir p st)
    with x set_update_subset_insert [of "pcs s" i "HANDLE_DIR p"] e show ?thesis by auto
  next
    case (opendir_fail p)
    with x set_update_subset_insert [of "pcs s" i "UPDATE False"] e show ?thesis by auto
  next
    case (expand p names)
    with x set_update_subset_insert [of "pcs s" i "UPDATE False"] e show ?thesis by auto
  next
    case (update e')
    with x set_update_subset_insert [of "pcs s" i WAIT] e show ?thesis by auto
  qed
  with st show "done_flag (shared s')" by (rule step_done_mono)
qed

subsection \<open>The invariant is kept\<close>

lemma step_traversal_inv:
  assumes st: "worker_step fs i s = Some s'"
    and inv: "traversal_inv fs T s"
    and bound: "tree_nodes T < 2 ^ 32"
  shows "traversal_inv fs T s'"
proof -
  from inv have
    c: "pending (shared s) = of_nat (outstanding s)" and
    w1: "\<forall>i \<in> cond (shared s). i < length (pcs s) \<and> pcs s ! i = WAIT" and
    w2: "cond (shared s) \<noteq> {} \<longrightarrow> queue (shared s) = [] \<and> \<not> done_flag (shared s)" and
    q: "\<forall>p \<in> set (queue (shared s)). has_tree fs p" and
    w: "\<forall>w \<in> set (pcs s). pc_ok fs w" and
    b: "total_size (shared s) + of_nat (512 * rem_blocks fs s) = of_nat (512 * tree_blocks T)" and
    n: "rem_nodes fs s \<le> tree_nodes T" and
    e: "tree_errors T \<longleftrightarrow> error_occurred (shared s) \<or> rem_errors fs s" and
    d: "done_flag (shared s) \<longleftrightarrow> outstanding s = 0" and
    x: "EXIT \<in> set (pcs s) \<longrightarrow> done_flag (shared s)"
    unfolding traversal_inv_def by blast+
  from outstanding_le_rem_nodes [of s fs] n bound have ob: "outstanding s < 2 ^ 32" by simp
  have f1: "pending (shared s') = of_nat (outstanding s')"
    using st c by (rule step_counted)
  note f2 = step_waiters [OF st w1 w2, THEN conjunct1]
  note f3 = step_waiters [OF st w1 w2, THEN conjunct2]
  note f4 = step_tasks_ok [OF st q w, THEN conjunct1]
  note f5 = step_tasks_ok [OF st q w, THEN conjunct2]
  from step_blocks [OF st q w] b
  have f6: "total_size (shared s') + of_nat (512 * rem_blocks fs s') =
      of_nat (512 * tree_blocks T)"
    by simp
  from rem_nodes_step [OF st q w] n have f7: "rem_nodes fs s' \<le> tree_nodes T" by simp
  from step_errors [OF st q w] e
  have f8: "tree_errors T \<longleftrightarrow> error_occurred (shared s') \<or> rem_errors fs s'" by simp
  note f9 = step_done_ok [OF st c ob d]
  note f10 = step_exit_ok [OF st x]
  show ?thesis
    unfolding traversal_inv_def
    using f1 f2 f3 f4 f5 f6 f7 f8 f9 f10 by simp
qed

lemma wakeup_traversal_inv:
  assumes wk: "spurious_wakeup i s = Some s'" and inv: "traversal_inv fs T s"
  shows "traversal_inv fs T s'"
proof -
  from wk have s': "s' = s\<lparr>shared := (shared s)\<lparr>cond := cond (shared s) - {i}\<rparr>\<rparr>"
    by (simp add: spurious_wakeup_def split: if_splits)
  have "outstanding s' = outstanding s" "rem_blocks fs s' = rem_blocks fs s"
    "rem_nodes fs s' = rem_nodes fs s" "rem_errors fs s' = rem_errors fs s"
    by (simp_all add: s' outstanding_def rem_blocks_def rem_nodes_def rem_errors_def)
  with inv show ?thesis
    by (auto simp: traversal_inv_def s')
qed

lemma event_traversal_inv:
  assumes "event_step fs e s = Some s'" and "traversal_inv fs T s"
    and "tree_nodes T < 2 ^ 32"
  shows "traversal_inv fs T s'"
proof (cases e)
  case (Step i)
  with assms(1) have "worker_step fs i s = Some s'" by (simp add: event_step_def)
  then show ?thesis using assms(2,3) by (rule step_traversal_inv)
next
  case (Wakeup i)
  with assms(1) have "spurious_wakeup i s = Some s'" by (simp add: event_step_def)
  then show ?thesis using assms(2) by (rule wakeup_traversal_inv)
qed

lemma run_Cons:
  assumes "run fs (e # sched) s = Some s'"
  obtains s1 where "event_step fs e s = Some s1" "run fs sched s1 = Some s'"
  using assms by (auto split: option.splits)

lemma run_traversal_inv:
  "run fs sched s = Some s' \<Longrightarrow> traversal_inv fs T s \<Longrightarrow> tree_nodes T < 2 ^ 32 \<Longrightarrow>
   traversal_inv fs T s'"
proof (induction sched arbitrary: s)
  case Nil
  then show ?case by simp
next
  case (Cons e sched)
  from Cons.prems(1) obtain s1 where 1: "event_step fs e s = Some s1"
    and 2: "run fs sched s1 = Some s'"
    by (rule run_Cons)
  from 1 Cons.prems(2,3) have "traversal_inv fs T s1" by (rule event_traversal_inv)
  with 2 Cons.prems(3) show ?case by (intro Cons.IH)
qed

lemma sum_list_replicate_0 [simp]: "sum_list (replicate n (0::nat)) = 0"
  by (induction n) simp_all

lemma start_traversal_inv:
  assumes "fs_tree fs path T"
  shows "traversal_inv fs T (start_worker_threads n path)"
proof -
  from assms have "tree_of fs path = T" "has_tree fs path"
    by (simp_all add: tree_of_eq has_treeI)
  then show ?thesis
    by (simp add: traversal_inv_def start_worker_threads_def thread_data_init_def enqueue_def
        outstanding_def rem_blocks_def rem_nodes_def rem_errors_def)
qed

subsection \<open>When every worker has exited\<close>

lemma traversal_invD:
  assumes "traversal_inv fs T s"
  shows "pending (shared s) = of_nat (outstanding s)"
    and "\<forall>i \<in> cond (shared s). i < length (pcs s) \<and> pcs s ! i = WAIT"
    and "cond (shared s) \<noteq> {} \<longrightarrow> queue (shared s) = [] \<and> \<not> done_flag (shared s)"
    and "\<forall>p \<in> set (queue (shared s)). has_tree fs p"
    and "\<forall>w \<in> set (pcs s). pc_ok fs w"
    and "total_size (shared s) + of_nat (512 * rem_blocks fs s) = of_nat (512 * tree_blocks T)"
    and "rem_nodes fs s \<le> tree_nodes T"
    and "tree_errors T \<longleftrightarrow> error_occurred (shared s) \<or> rem_errors fs s"
    and "done_flag (shared s) \<longleftrightarrow> outstanding s = 0"
    and "EXIT \<in> set (pcs s) \<longrightarrow> done_flag (shared s)"
  using assms unfolding traversal_inv_def by blast+

lemma joined_final:
  assumes inv: "traversal_inv fs T s" and j: "joined s" and n: "pcs s \<noteq> []"
  shows "queue (shared s) = []"
    and "total_size (shared s) = of_nat (512 * tree_blocks T)"
    and "error_occurred (shared s) = tree_errors T"
    and "pending (shared s) = 0"
    and "done_flag (shared s)"
proof -
  note I = traversal_invD [OF inv]
  from j have all: "\<forall>w \<in> set (pcs s). w = EXIT"
    by (simp add: joined_def list_all_iff)
  with n have "EXIT \<in> set (pcs s)" by (cases "pcs s") auto
  with I(10) show d: "done_flag (shared s)" by simp
  with I(9) have o: "outstanding s = 0" by simp
  then show q: "queue (shared s) = []" by (simp add: outstanding_def)
  from o I(1) show "pending (shared s) = 0" by simp
  from all have "sum_list (map (pc_blocks fs) (pcs s)) = 0" by auto
  with q have "rem_blocks fs s = 0" by (simp add: rem_blocks_def)
  with I(6) show "total_size (shared s) = of_nat (512 * tree_blocks T)"
    by simp
  from all q have "\<not> rem_errors fs s" by (auto simp: rem_errors_def)
  with I(8) show "error_occurred (shared s) = tree_errors T"
    by simp
qed

subsection \<open>No deadlock\<close>

lemma worker_can_move:
  assumes inv: "traversal_inv fs T s" and nj: "\<not> joined s"
  shows "\<exists>i s'. worker_step fs i s = Some s'"
proof (cases "\<exists>i < length (pcs s). pc_busy (pcs s ! i) = 1")
  case True
  then obtain i where i: "i < length (pcs s)" and b: "pc_busy (pcs s ! i) = 1" by blast
  show ?thesis
  proof (cases "pcs s ! i")
    case (PROCESS p)
    with i have "worker_step fs i s \<noteq> None"
      by (cases "lstat fs p") (simp_all add: worker_step_PROCESS)
    then show ?thesis by blast
  next
    case (HANDLE_DIR p)
    with i have "worker_step fs i s \<noteq> None" by (simp add: worker_step_HANDLE_DIR)
    then show ?thesis by blast
  next
    case (UPDATE e)
    with i have "worker_step fs i s \<noteq> None" by (simp add: worker_step_UPDATE)
    then show ?thesis by blast
  qed (use b in simp_all)
next
  case False
  then have idle: "\<forall>w \<in> set (pcs s). pc_busy w = 0"
    by (metis in_set_conv_nth pc_busy.elims)
  then have busy0: "sum_list (map pc_busy (pcs s)) = 0" by simp
  from nj obtain j where j: "j < length (pcs s)" "pcs s ! j \<noteq> EXIT"
    by (auto simp: joined_def list_all_length)
  from j(1) have "pcs s ! j \<in> set (pcs s)" by (rule nth_mem)
  with idle have "pc_busy (pcs s ! j) = 0" by blast
  with j(2) have w: "pcs s ! j = WAIT"
    by (cases "pcs s ! j") simp_all
  show ?thesis
  proof (cases "j \<in> cond (shared s)")
    case True
    with traversal_invD(3) [OF inv] have "queue (shared s) = []" "\<not> done_flag (shared s)"
      by auto
    with busy0 traversal_invD(9) [OF inv] show ?thesis by (simp add: outstanding_def)
  next
    case False
    with j w have "worker_step fs j s \<noteq> None" by (simp add: worker_step_WAIT)
    then show ?thesis by blast
  qed
qed

subsection \<open>Every schedule is finite\<close>

lemma finite_active: "finite (active s)"
  by (simp add: active_def)

lemma card_active_le: "card (active s) \<le> length (pcs s)"
proof -
  have "active s \<subseteq> {..<length (pcs s)}" by (auto simp: active_def)
  then have "card (active s) \<le> card {..<length (pcs s)}" by (intro card_mono) simp_all
  then show ?thesis by simp
qed

lemma active_step:
  assumes st: "worker_step fs i s = Some s'"
    and w: "pcs s ! i = WAIT" and q: "queue (shared s) = []"
  shows "card (active s') < card (active s)"
proof -
  have i: "i \<in> active s"
    using st w by (auto simp: active_def worker_step_def split: if_splits)
  have "active s' \<subseteq> active s - {i}"
    using st
  proof (cases rule: worker_step_cases)
    case block
    then show ?thesis by (auto simp: active_def)
  next
    case exit
    then show ?thesis by (auto simp: active_def nth_list_update split: if_splits)
  qed (use w q in simp_all)
  with i have "active s' \<subset> active s" by blast
  then show ?thesis by (intro psubset_card_mono finite_active)
qed

lemma steps_left_step:
  assumes st: "worker_step fs i s = Some s'"
    and q: "\<forall>p \<in> set (queue (shared s)). has_tree fs p"
    and w: "\<forall>w \<in> set (pcs s). pc_ok fs w"
  shows "steps_left fs s' < steps_left fs s"
proof -
  let ?n = "length (pcs s)"
  have len: "length (pcs s') = ?n" using st by (rule length_pcs_step)
  from work_step [OF st q w] show ?thesis
  proof
    assume "work fs s' < work fs s"
    then have "Suc (work fs s') \<le> work fs s" by simp
    then have "(?n + 1) * Suc (work fs s') \<le> (?n + 1) * work fs s"
      by (intro mult_le_mono2)
    moreover have "card (active s') \<le> ?n" using card_active_le [of s'] len by simp
    ultimately show ?thesis by (simp add: steps_left_def len)
  next
    assume "work fs s' = work fs s \<and> pcs s ! i = WAIT \<and> queue (shared s) = []"
    with active_step [OF st] show ?thesis by (simp add: steps_left_def len)
  qed
qed

lemma wakeup_steps_left:
  assumes "spurious_wakeup i s = Some s'"
  shows "steps_left fs s' \<le> Suc (steps_left fs s)"
proof -
  from assms have s': "s' = s\<lparr>shared := (shared s)\<lparr>cond := cond (shared s) - {i}\<rparr>\<rparr>"
    by (simp add: spurious_wakeup_def split: if_splits)
  have "active s' \<subseteq> insert i (active s)" by (auto simp: active_def s')
  then have "card (active s') \<le> card (insert i (active s))"
    by (intro card_mono) (simp_all add: finite_active)
  also have "\<dots> \<le> Suc (card (active s))" by (rule card_insert_le_m1) simp_all
  finally have "card (active s') \<le> Suc (card (active s))" .
  moreover have "work fs s' = work fs s" by (simp add: work_def s')
  ultimately show ?thesis by (simp add: steps_left_def s')
qed

lemma run_length:
  "run fs sched s = Some s' \<Longrightarrow> traversal_inv fs T s \<Longrightarrow> tree_nodes T < 2 ^ 32 \<Longrightarrow>
   length (filter is_Step sched) + steps_left fs s' \<le>
     steps_left fs s + length (filter is_Wakeup sched)"
proof (induction sched arbitrary: s)
  case Nil
  then show ?case by simp
next
  case (Cons e sched)
  from Cons.prems(1) obtain s1 where 1: "event_step fs e s = Some s1"
    and 2: "run fs sched s1 = Some s'"
    by (rule run_Cons)
  from 1 Cons.prems(2,3) have inv1: "traversal_inv fs T s1" by (rule event_traversal_inv)
  from 2 inv1 Cons.prems(3)
  have IH: "length (filter is_Step sched) + steps_left fs s' \<le>
      steps_left fs s1 + length (filter is_Wakeup sched)"
    by (rule Cons.IH)
  show ?case
  proof (cases e)
    case (Step i)
    with 1 have "worker_step fs i s = Some s1" by (simp add: event_step_def)
    then have "steps_left fs s1 < steps_left fs s"
      using traversal_invD(4,5) [OF Cons.prems(2)] by (rule steps_left_step)
    with IH Step show ?thesis by simp
  next
    case (Wakeup i)
    with 1 have "spurious_wakeup i s = Some s1" by (simp add: event_step_def)
    then have "steps_left fs s1 \<le> Suc (steps_left fs s)" by (rule wakeup_steps_left)
    with IH Wakeup show ?thesis by simp
  qed
qed

lemma complete_run_exists:
  "traversal_inv fs T s \<Longrightarrow> tree_nodes T < 2 ^ 32 \<Longrightarrow>
   \<exists>sched s'. run fs sched s = Some s' \<and> joined s' \<and> list_all is_Step sched"
proof (induction "steps_left fs s" arbitrary: s rule: less_induct)
  case less
  show ?case
  proof (cases "joined s")
    case True
    then have "run fs [] s = Some s \<and> joined s \<and> list_all is_Step []" by simp
    then show ?thesis by blast
  next
    case False
    with less.prems(1) obtain i s1 where 1: "worker_step fs i s = Some s1"
      using worker_can_move by blast
    from 1 less.prems have inv1: "traversal_inv fs T s1" by (rule step_traversal_inv)
    have "steps_left fs s1 < steps_left fs s"
      using 1 traversal_invD(4,5) [OF less.prems(1)] by (rule steps_left_step)
    from less.hyps [OF this inv1 less.prems(2)]
    obtain sched s' where "run fs sched s1 = Some s'" "joined s'" "list_all is_Step sched"
      by blast
    with 1 have "run fs (Step i # sched) s = Some s' \<and> joined s' \<and>
        list_all is_Step (Step i # sched)"
      by (simp add: event_step_def)
    then show ?thesis by blast
  qed
qed

lemma steps_left_start:
  assumes "fs_tree fs path T"
  shows "steps_left fs (start_worker_threads n path) = (n + 1) * (4 * tree_nodes T) + n"
proof -
  from assms have t: "tree_of fs path = T" by (rule tree_of_eq)
  have "active (start_worker_threads n path) = {..<n}"
    by (auto simp: active_def start_worker_threads_def thread_data_init_def enqueue_def)
  then show ?thesis
    using t
    by (simp add: steps_left_def work_def start_worker_threads_def thread_data_init_def
        enqueue_def)
qed

subsection \<open>From bytes to blocks\<close>

lemma sdiv_nonneg: "0 \<le> a \<Longrightarrow> 0 < b \<Longrightarrow> (a::int) sdiv b = a div b"
  by (simp add: signed_divide_int_def sgn_if)

lemma sint_add_511:
  fixes bytes :: "64 word"
  assumes "0 \<le> sint bytes" "sint bytes \<le> 2 ^ 63 - 512"
  shows "sint (bytes + 511) = sint bytes + 511"
proof -
  have "sint (bytes + 511) = signed_take_bit 63 (sint bytes + 511)"
    by (simp add: sint_word_add)
  also have "\<dots> = sint bytes + 511"
    using assms by (intro signed_take_bit_int_eq_self) simp_all
  finally show ?thesis .
qed

lemma total_blocks_div:
  assumes "0 \<le> sint bytes" "sint bytes \<le> 2 ^ 63 - 512"
  shows "sint (total_blocks bytes) = (sint bytes + 511) div 512"
proof -
  let ?q = "(sint bytes + 511) div 512"
  have q: "0 \<le> ?q" "?q < 2 ^ 63" using assms by simp_all
  have "sint (total_blocks bytes) = signed_take_bit 63 ?q"
    using assms by (simp add: total_blocks_def sint_add_511 sdiv_nonneg sint_sbintrunc')
  also have "\<dots> = ?q"
    using q by (intro signed_take_bit_int_eq_self) simp_all
  finally show ?thesis .
qed

lemma ceiling_512: "\<lceil>real_of_int a / 512\<rceil> = (a + 511) div 512"
proof -
  define q where "q = (a + 511) div 512"
  have "a + 511 = 512 * q + (a + 511) mod 512"
    unfolding q_def by (rule mult_div_mod_eq [symmetric])
  moreover have "0 \<le> (a + 511) mod 512" "(a + 511) mod 512 < 512"
    by simp_all
  ultimately have 1: "512 * (q - 1) < a" and 2: "a \<le> 512 * (q - 1) + 512"
    by simp_all
  have "real_of_int (q - 1) < real_of_int a / 512"
    using 1 by (simp add: less_divide_eq flip: of_int_less_iff)
  moreover have "real_of_int a / 512 \<le> real_of_int (q - 1) + 1"
    using 2 by (simp add: divide_le_eq flip: of_int_le_iff)
  ultimately have "\<lceil>real_of_int a / 512\<rceil> = (q - 1) + 1"
    by (rule ceiling_eq)
  then show ?thesis by (simp add: q_def)
qed

lemma total_blocks_ceiling:
  assumes "0 \<le> sint bytes" "sint bytes \<le> 2 ^ 63 - 512"
  shows "sint (total_blocks bytes) = \<lceil>real_of_int (sint bytes) / 512\<rceil>"
  by (simp only: total_blocks_div [OF assms] ceiling_512)

lemma sint_of_nat_64:
  assumes "n < 2 ^ 63"
  shows "sint (of_nat n :: 64 word) = int n"
proof -
  have "(of_nat n :: 64 word) = word_of_int (int n)"
    by (simp only: of_int_of_nat_eq)
  then have "sint (of_nat n :: 64 word) = signed_take_bit (LENGTH(64) - 1) (int n)"
    by (simp only: sint_sbintrunc')
  also have "\<dots> = int n"
    using assms by (intro signed_take_bit_int_eq_self) simp_all
  finally show ?thesis .
qed

lemma sint_bytes_of_blocks:
  assumes "512 * b < 2 ^ 63"
  shows "sint (of_nat (512 * b) :: 64 word) = 512 * int b"
    and "sint (total_blocks (of_nat (512 * b))) = int b"
    and "sint (total_blocks (of_nat (512 * b))) =
         \<lceil>real_of_int (sint (of_nat (512 * b) :: 64 word)) / 512\<rceil>"
proof -
  show s: "sint (of_nat (512 * b) :: 64 word) = 512 * int b"
    using sint_of_nat_64 [OF assms] by simp
  have r: "0 \<le> sint (of_nat (512 * b) :: 64 word)"
    "sint (of_nat (512 * b) :: 64 word) \<le> 2 ^ 63 - 512"
    using assms unfolding s by simp_all
  from total_blocks_div [OF r] show "sint (total_blocks (of_nat (512 * b))) = int b"
    unfolding s by simp
  from total_blocks_ceiling [OF r]
  show "sint (total_blocks (of_nat (512 * b))) =
        \<lceil>real_of_int (sint (of_nat (512 * b) :: 64 word)) / 512\<rceil>" .
qed

section \<open>What holds of every traversal\<close>

subsection \<open>Reachable states\<close>

lemma length_pcs_event: "event_step fs e s = Some s' \<Longrightarrow> length (pcs s') = length (pcs s)"
  by (cases e)
    (auto simp: event_step_def spurious_wakeup_def split: if_splits dest: length_pcs_step)

lemma run_length_pcs: "run fs sched s = Some s' \<Longrightarrow> length (pcs s') = length (pcs s)"
proof (induction sched arbitrary: s)
  case Nil
  then show ?case by simp
next
  case (Cons e sched)
  from Cons.prems obtain s1 where "event_step fs e s = Some s1" "run fs sched s1 = Some s'"
    by (rule run_Cons)
  with Cons.IH [of s1] show ?case by (simp add: length_pcs_event)
qed

lemma reachable_inv:
  assumes "fs_tree fs path T" and "tree_nodes T < 2 ^ 31"
    and "run fs sched (start_worker_threads n path) = Some s"
  shows "traversal_inv fs T s"
proof -
  from assms(2) have b: "tree_nodes T < 2 ^ 32" by simp
  from assms(1) have "traversal_inv fs T (start_worker_threads n path)"
    by (rule start_traversal_inv)
  with assms(3) show ?thesis using b by (rule run_traversal_inv)
qed

lemma unat_pending:
  assumes inv: "traversal_inv fs T s" and b: "tree_nodes T < 2 ^ 31"
  shows "unat (pending (shared s)) = outstanding s"
proof -
  from outstanding_le_rem_nodes [of s fs] traversal_invD(7) [OF inv] b
  have "outstanding s < 2 ^ 32" by simp
  then have "unat (of_nat (outstanding s) :: 32 word) = outstanding s"
    by (simp add: unat_of_nat)
  with traversal_invD(1) [OF inv] show ?thesis by simp
qed

text \<open>
  C1. Take any state a traversal can reach in which worker \<open>i\<close> has measured the directory
  \<open>path\<close> and not yet registered its children. There \<open>pending\<close> is not 0: it is the number
  of queued paths plus the number of workers inside \<^verbatim>\<open>process_path\<close>, this worker among
  them. If the enumeration succeeds with K children, the worker's next critical section
  appends the K child paths to the queue and raises \<open>pending\<close> by K, and leaves the worker
  before \<^verbatim>\<open>update_error_status\<close>: its own decrement comes only after that.
\<close>

theorem children_registered_before_own_decrement:
  assumes tree: "fs_tree fs path0 T" and nodes: "tree_nodes T < 2 ^ 31"
    and run: "run fs sched (start_worker_threads n path0) = Some s"
    and i: "i < length (pcs s)" and pc: "pcs s ! i = HANDLE_DIR path"
  shows "pending (shared s) \<noteq> 0 \<and>
         unat (pending (shared s)) = outstanding s \<and>
         (\<forall>names. readdir fs path = Some names \<longrightarrow>
            (\<exists>s'. worker_step fs i s = Some s' \<and>
               queue (shared s') = queue (shared s) @ paths_to_enqueue path names \<and>
               unat (pending (shared s')) =
                 unat (pending (shared s)) + length (paths_to_enqueue path names) \<and>
               pcs s' ! i = UPDATE False))"
proof -
  from tree nodes run have inv: "traversal_inv fs T s" by (rule reachable_inv)
  have u: "unat (pending (shared s)) = outstanding s"
    using inv nodes by (rule unat_pending)
  from busy_le_outstanding [OF i] pc have "0 < outstanding s" by simp
  with u have nz: "pending (shared s) \<noteq> 0" by auto
  have "\<exists>s'. worker_step fs i s = Some s' \<and>
            queue (shared s') = queue (shared s) @ paths_to_enqueue path names \<and>
            unat (pending (shared s')) =
              unat (pending (shared s)) + length (paths_to_enqueue path names) \<and>
            pcs s' ! i = UPDATE False"
    if names: "readdir fs path = Some names" for names
  proof -
    let ?s' = "\<lparr>shared = handle_directory fs path (shared s), pcs = (pcs s)[i := UPDATE False]\<rparr>"
    have st: "worker_step fs i s = Some ?s'"
      using i pc by (rule worker_step_HANDLE_DIR)
    from st inv have inv': "traversal_inv fs T ?s'"
      using nodes by (intro step_traversal_inv [of fs i s ?s' T]) simp_all
    have u': "unat (pending (shared ?s')) = outstanding ?s'"
      using inv' nodes by (rule unat_pending)
    from outstanding_step [OF st] pc names
    have "outstanding ?s' = outstanding s + length (paths_to_enqueue path names)"
      by auto
    with u u' st i names show ?thesis
      by (simp add: handle_directory_Some)
  qed
  with nz u show ?thesis by blast
qed

text \<open>
  C4. \<open>done\<close> starts false. In every state a traversal can reach, and after whatever
  happens next, it is true exactly when \<open>pending\<close> is 0 and the queue is empty. Nothing
  clears it. A worker before \<^verbatim>\<open>update_error_status\<close> can always move, and its move takes 1
  from \<open>pending\<close>; when that brings \<open>pending\<close> to 0 while the queue is empty, the move sets
  \<open>done\<close> and broadcasts, so that no worker is left waiting on the condition variable. That
  is the only way \<open>done\<close> becomes true, and once the workers are joined it is true.
\<close>

theorem done_flag_protocol:
  assumes tree: "fs_tree fs path0 T" and nodes: "tree_nodes T < 2 ^ 31"
    and run: "run fs sched (start_worker_threads n path0) = Some s"
    and ev: "event_step fs e s = Some s'"
  shows "\<not> done_flag (shared (start_worker_threads n path0)) \<and>
         (done_flag (shared s) \<longleftrightarrow> pending (shared s) = 0 \<and> queue (shared s) = []) \<and>
         (done_flag (shared s') \<longleftrightarrow> pending (shared s') = 0 \<and> queue (shared s') = []) \<and>
         (done_flag (shared s) \<longrightarrow> done_flag (shared s')) \<and>
         (\<not> done_flag (shared s) \<and> done_flag (shared s') \<longrightarrow>
            (\<exists>i err. e = Step i \<and> pcs s ! i = UPDATE err) \<and>
            pending (shared s') = pending (shared s) - 1 \<and>
            cond (shared s') = {}) \<and>
         (\<forall>i err. i < length (pcs s) \<and> pcs s ! i = UPDATE err \<longrightarrow>
            (\<exists>u. event_step fs (Step i) s = Some u \<and>
               pending (shared u) = pending (shared s) - 1 \<and>
               queue (shared u) = queue (shared s) \<and>
               (pending (shared u) = 0 \<and> queue (shared s) = [] \<longrightarrow>
                  \<not> done_flag (shared s) \<and> done_flag (shared u) \<and> cond (shared u) = {}))) \<and>
         (0 < n \<and> joined s \<longrightarrow> done_flag (shared s))"
proof -
  from tree nodes run have inv: "traversal_inv fs T s" by (rule reachable_inv)
  from ev inv have inv': "traversal_inv fs T s'"
    using nodes by (intro event_traversal_inv [of fs e s s' T]) simp_all
  have eq: "done_flag (shared x) \<longleftrightarrow> pending (shared x) = 0 \<and> queue (shared x) = []"
    if x: "traversal_inv fs T x" for x
  proof -
    have u: "unat (pending (shared x)) = outstanding x"
      using x nodes by (rule unat_pending)
    have "pending (shared x) = 0 \<longleftrightarrow> outstanding x = 0"
      using u unat_eq_0 [of "pending (shared x)"] by simp
    moreover have "outstanding x = 0 \<Longrightarrow> queue (shared x) = []"
      by (simp add: outstanding_def)
    ultimately show ?thesis using traversal_invD(9) [OF x] by auto
  qed
  have mono: "done_flag (shared s')" if "done_flag (shared s)"
  proof (cases e)
    case (Step i)
    with ev have "worker_step fs i s = Some s'" by (simp add: event_step_def)
    then show ?thesis using that by (rule step_done_mono)
  next
    case (Wakeup i)
    with ev that show ?thesis
      by (auto simp: event_step_def spurious_wakeup_def split: if_splits)
  qed
  have set: "(\<exists>i err. e = Step i \<and> pcs s ! i = UPDATE err) \<and>
             pending (shared s') = pending (shared s) - 1 \<and> cond (shared s') = {}"
    if nd: "\<not> done_flag (shared s)" and d: "done_flag (shared s')"
  proof (cases e)
    case (Step i)
    with ev have "worker_step fs i s = Some s'" by (simp add: event_step_def)
    then show ?thesis
    proof (cases rule: worker_step_cases)
      case (update err)
      with nd d Step show ?thesis
        by (auto simp: done_flag_update_error_status cond_update_error_status)
    qed (use nd d in simp_all)
  next
    case (Wakeup i)
    with ev nd d show ?thesis
      by (auto simp: event_step_def spurious_wakeup_def split: if_splits)
  qed
  have upd: "\<exists>u. event_step fs (Step i) s = Some u \<and>
               pending (shared u) = pending (shared s) - 1 \<and>
               queue (shared u) = queue (shared s) \<and>
               (pending (shared u) = 0 \<and> queue (shared s) = [] \<longrightarrow>
                  \<not> done_flag (shared s) \<and> done_flag (shared u) \<and> cond (shared u) = {})"
    if i: "i < length (pcs s)" and pc: "pcs s ! i = UPDATE err" for i err
  proof -
    let ?u = "\<lparr>shared = update_error_status (shared s) err, pcs = (pcs s)[i := WAIT]\<rparr>"
    have st: "event_step fs (Step i) s = Some ?u"
      using i pc by (simp add: event_step_def worker_step_UPDATE)
    from busy_le_outstanding [OF i] pc have "0 < outstanding s" by simp
    with traversal_invD(9) [OF inv] have nd: "\<not> done_flag (shared s)" by simp
    have "done_flag (shared ?u) \<and> cond (shared ?u) = {}"
      if "pending (shared ?u) = 0" "queue (shared s) = []"
      using that by (simp add: done_flag_update_error_status cond_update_error_status)
    with st nd show ?thesis by simp
  qed
  have fin: "done_flag (shared s)" if n: "0 < n" and j: "joined s"
  proof -
    from run_length_pcs [OF run] n have "pcs s \<noteq> []"
      by (auto simp: start_worker_threads_def)
    with inv j show ?thesis by (rule joined_final(5))
  qed
  have "\<not> done_flag (shared (start_worker_threads n path0))"
    by (simp add: start_worker_threads_def thread_data_init_def enqueue_def)
  with eq [OF inv] eq [OF inv'] mono set upd fin show ?thesis by blast
qed

lemma example_tree_ok:
  "fs_tree example_fs ''r'' example_tree"
  "tree_nodes example_tree < 2 ^ 31"
  "512 * tree_blocks example_tree < 2 ^ 63"
  by (simp_all add: example_defs)

lemma example_run_expanding:
  "run example_fs [Step 0, Step 1, Step 0] (start_worker_threads 2 ''r'') = Some expanding_state"
  by code_simp

lemma example_run2:
  "run example_fs example_sched2 (start_worker_threads 2 ''r'') =
     Some \<lparr>shared = \<lparr>cond = {}, queue = [], total_size = 16384, pending = 0, done_flag = True,
                     error_occurred = True\<rparr>,
           pcs = [EXIT, EXIT]\<rparr>"
  by code_simp

lemma example_run1:
  "run example_fs example_sched1 (start_worker_threads 1 ''r'') =
     Some \<lparr>shared = \<lparr>cond = {}, queue = [], total_size = 16384, pending = 0, done_flag = True,
                     error_occurred = True\<rparr>,
           pcs = [EXIT]\<rparr>"
  by code_simp

theorem children_registered_before_own_decrement_witness:
  "fs_tree example_fs ''r'' example_tree \<and> tree_nodes example_tree < 2 ^ 31 \<and>
   run example_fs [Step 0, Step 1, Step 0] (start_worker_threads 2 ''r'') = Some expanding_state \<and>
   0 < length (pcs expanding_state) \<and> pcs expanding_state ! 0 = HANDLE_DIR ''r'' \<and>
   readdir example_fs ''r'' = Some [''.'', ''..'', ''a'', ''b'', ''c''] \<and>
   pending (shared expanding_state) \<noteq> 0 \<and>
   (\<exists>s'. worker_step example_fs 0 expanding_state = Some s' \<and>
      queue (shared s') = [''r/a'', ''r/b'', ''r/c''] \<and> unat (pending (shared s')) = 4 \<and>
      pcs s' ! 0 = UPDATE False)"
proof -
  have h: "0 < length (pcs expanding_state)" "pcs expanding_state ! 0 = HANDLE_DIR ''r''"
    by (simp_all add: example_defs)
  have n: "readdir example_fs ''r'' = Some [''.'', ''..'', ''a'', ''b'', ''c'']"
    by (simp add: example_defs)
  have q0: "queue (shared expanding_state) @
      paths_to_enqueue ''r'' [''.'', ''..'', ''a'', ''b'', ''c''] = [''r/a'', ''r/b'', ''r/c'']"
    by (simp add: example_defs)
  have p0: "unat (pending (shared expanding_state)) +
      length (paths_to_enqueue ''r'' [''.'', ''..'', ''a'', ''b'', ''c'']) = 4"
    by (simp add: example_defs)
  from children_registered_before_own_decrement
    [OF example_tree_ok(1,2) example_run_expanding h] n
  have "pending (shared expanding_state) \<noteq> 0"
    and "\<exists>s'. worker_step example_fs 0 expanding_state = Some s' \<and>
      queue (shared s') =
        queue (shared expanding_state) @
          paths_to_enqueue ''r'' [''.'', ''..'', ''a'', ''b'', ''c''] \<and>
      unat (pending (shared s')) =
        unat (pending (shared expanding_state)) +
          length (paths_to_enqueue ''r'' [''.'', ''..'', ''a'', ''b'', ''c'']) \<and>
      pcs s' ! 0 = UPDATE False"
    by blast+
  then show ?thesis
    unfolding q0 p0
    using example_tree_ok(1,2) example_run_expanding h n by blast
qed

lemma example_run_last_update:
  "run example_fs last_update_sched (start_worker_threads 2 ''r'') = Some last_update_state"
  by code_simp

lemma example_last_update:
  "event_step example_fs (Step 0) last_update_state = Some finished_state"
  by code_simp

theorem done_flag_protocol_witness:
  "fs_tree example_fs ''r'' example_tree \<and> tree_nodes example_tree < 2 ^ 31 \<and>
   run example_fs last_update_sched (start_worker_threads 2 ''r'') = Some last_update_state \<and>
   event_step example_fs (Step 0) last_update_state = Some finished_state \<and>
   pcs last_update_state ! 0 = UPDATE True \<and>
   \<not> done_flag (shared last_update_state) \<and>
   cond (shared last_update_state) = {1} \<and>
   pending (shared finished_state) = pending (shared last_update_state) - 1 \<and>
   pending (shared finished_state) = 0 \<and>
   queue (shared finished_state) = [] \<and>
   done_flag (shared finished_state) \<and>
   cond (shared finished_state) = {}"
proof -
  note p = done_flag_protocol
    [OF example_tree_ok(1,2) example_run_last_update example_last_update]
  have before: "pcs last_update_state ! 0 = UPDATE True"
    "\<not> done_flag (shared last_update_state)" "cond (shared last_update_state) = {1}"
    by (simp_all add: example_defs)
  have zero: "pending (shared finished_state) = 0" "queue (shared finished_state) = []"
    by (simp_all add: example_defs)
  from p zero have d: "done_flag (shared finished_state)" by blast
  from p before(2) d
  have "pending (shared finished_state) = pending (shared last_update_state) - 1"
    and "cond (shared finished_state) = {}"
    by blast+
  with example_tree_ok(1,2) example_run_last_update example_last_update before zero d
  show ?thesis by blast
qed

lemma joined_total:
  assumes tree: "fs_tree fs path0 T" and nodes: "tree_nodes T < 2 ^ 31"
    and n: "0 < n"
    and run: "run fs sched (start_worker_threads n path0) = Some s" and j: "joined s"
  shows "total_size (shared s) = of_nat (512 * tree_blocks T)"
    and "error_occurred (shared s) = tree_errors T"
proof -
  from tree nodes run have inv: "traversal_inv fs T s" by (rule reachable_inv)
  from run_length_pcs [OF run] n have ne: "pcs s \<noteq> []"
    by (auto simp: start_worker_threads_def)
  from inv j ne show "total_size (shared s) = of_nat (512 * tree_blocks T)"
    by (rule joined_final(2))
  from inv j ne show "error_occurred (shared s) = tree_errors T"
    by (rule joined_final(3))
qed

text \<open>
  C3. Let the file system below a path be a tree with fewer than \<open>2^31\<close> nodes and fewer
  than \<open>2^63\<close> bytes of allocation. For every worker count \<open>n \<ge> 1\<close> a traversal completes
  (some schedule ends with all workers joined, and in every schedule the number of worker
  transitions is bounded by a number that depends on the tree and \<open>n\<close> only, plus the number
  of spurious wakeups); whenever it has completed the reported block count is the sum of the
  \<^verbatim>\<open>st_blocks\<close> of the tree, and it is the same as for any other worker count \<open>m \<ge> 1\<close> and
  any other schedule.
\<close>

theorem total_independent_of_worker_count:
  assumes tree: "fs_tree fs path0 T" and nodes: "tree_nodes T < 2 ^ 31"
    and blocks: "512 * tree_blocks T < 2 ^ 63"
    and n: "0 < n" and m: "0 < m"
  shows "(\<exists>sched s. run fs sched (start_worker_threads n path0) = Some s \<and> joined s \<and>
            list_all is_Step sched) \<and>
         (\<forall>sched s. run fs sched (start_worker_threads n path0) = Some s \<longrightarrow>
            length (filter is_Step sched) \<le>
              (n + 1) * (4 * tree_nodes T) + n + length (filter is_Wakeup sched)) \<and>
         (\<forall>sched s sched' s'.
            run fs sched (start_worker_threads n path0) = Some s \<and> joined s \<and>
            run fs sched' (start_worker_threads m path0) = Some s' \<and> joined s' \<longrightarrow>
            sint (total_blocks (total_size (shared s))) = int (tree_blocks T) \<and>
            total_blocks (total_size (shared s')) = total_blocks (total_size (shared s)))"
proof (intro conjI allI impI)
  from nodes have b: "tree_nodes T < 2 ^ 32" by simp
  have inv0: "traversal_inv fs T (start_worker_threads n path0)"
    using tree by (rule start_traversal_inv)
  from inv0 b show "\<exists>sched s. run fs sched (start_worker_threads n path0) = Some s \<and>
      joined s \<and> list_all is_Step sched"
    by (rule complete_run_exists)
  show "length (filter is_Step sched) \<le>
      (n + 1) * (4 * tree_nodes T) + n + length (filter is_Wakeup sched)"
    if "run fs sched (start_worker_threads n path0) = Some s" for sched s
    using run_length [OF that inv0 b] steps_left_start [OF tree, of n] by simp
next
  fix sched s sched' s'
  assume a: "run fs sched (start_worker_threads n path0) = Some s \<and> joined s \<and>
             run fs sched' (start_worker_threads m path0) = Some s' \<and> joined s'"
  then have 1: "total_size (shared s) = of_nat (512 * tree_blocks T)"
    using joined_total(1) [OF tree nodes n] by blast
  from a have 2: "total_size (shared s') = of_nat (512 * tree_blocks T)"
    using joined_total(1) [OF tree nodes m] by blast
  show "sint (total_blocks (total_size (shared s))) = int (tree_blocks T)"
    unfolding 1 using blocks by (rule sint_bytes_of_blocks(2))
  show "total_blocks (total_size (shared s')) = total_blocks (total_size (shared s))"
    unfolding 1 2 ..
qed

theorem total_independent_of_worker_count_witness:
  "fs_tree example_fs ''r'' example_tree \<and> tree_nodes example_tree < 2 ^ 31 \<and>
   512 * tree_blocks example_tree < 2 ^ 63 \<and>
   run example_fs example_sched2 (start_worker_threads 2 ''r'') =
     Some \<lparr>shared = \<lparr>cond = {}, queue = [], total_size = 16384, pending = 0, done_flag = True,
                     error_occurred = True\<rparr>,
           pcs = [EXIT, EXIT]\<rparr> \<and>
   run example_fs example_sched1 (start_worker_threads 1 ''r'') =
     Some \<lparr>shared = \<lparr>cond = {}, queue = [], total_size = 16384, pending = 0, done_flag = True,
                     error_occurred = True\<rparr>,
           pcs = [EXIT]\<rparr> \<and>
   sint (total_blocks 16384) = int (tree_blocks example_tree) \<and>
   tree_blocks example_tree = 32"
proof -
  let ?s2 = "\<lparr>shared = \<lparr>cond = {}, queue = [], total_size = 16384, pending = 0,
                 done_flag = True, error_occurred = True\<rparr>, pcs = [EXIT, EXIT]\<rparr>"
  let ?s1 = "\<lparr>shared = \<lparr>cond = {}, queue = [], total_size = 16384, pending = 0,
                 done_flag = True, error_occurred = True\<rparr>, pcs = [EXIT]\<rparr>"
  have j: "joined ?s2" "joined ?s1" by (simp_all add: joined_def)
  have pos: "0 < (2::nat)" "0 < (1::nat)" by simp_all
  from total_independent_of_worker_count [OF example_tree_ok pos] example_run2 example_run1 j
  have "sint (total_blocks (total_size (shared ?s2))) = int (tree_blocks example_tree)"
    by blast
  then have "sint (total_blocks 16384) = int (tree_blocks example_tree)" by simp
  moreover have "tree_blocks example_tree = 32" by (simp add: example_defs)
  ultimately show ?thesis
    using example_tree_ok example_run2 example_run1 by blast
qed

text \<open>
  C5. For a top-level path whose workers have all been joined in state \<open>s\<close>, the line that
  \<^verbatim>\<open>main\<close> prints carries \<open>\<lceil>total_size / 512\<rceil>\<close>, where \<open>total_size\<close> is the byte total
  accumulated in \<open>s\<close>, and the path as given.
\<close>

theorem reported_blocks_are_ceiling:
  assumes tree: "fs_tree fs path0 T" and nodes: "tree_nodes T < 2 ^ 31"
    and blocks: "512 * tree_blocks T < 2 ^ 63"
    and n: "0 < n"
    and run: "run fs sched (start_worker_threads n path0) = Some s" and j: "joined s"
    and rest: "main_loop fs n rest (if error_occurred (shared s) then EXIT_FAILURE else code) =
                 Some (c, lines)"
  shows "main_loop fs n ((path0, sched) # rest) code =
           Some (c, (\<lceil>real_of_int (sint (total_size (shared s))) / 512\<rceil>, path0) # lines)"
proof -
  have t: "total_size (shared s) = of_nat (512 * tree_blocks T)"
    using tree nodes n run j by (rule joined_total(1))
  have "sint (total_blocks (total_size (shared s))) =
        \<lceil>real_of_int (sint (total_size (shared s))) / 512\<rceil>"
    unfolding t using blocks by (rule sint_bytes_of_blocks(3))
  with run j rest show ?thesis by (simp add: Let_def)
qed

theorem reported_blocks_are_ceiling_witness:
  "fs_tree example_fs ''r'' example_tree \<and> tree_nodes example_tree < 2 ^ 31 \<and>
   512 * tree_blocks example_tree < 2 ^ 63 \<and>
   run example_fs example_sched2 (start_worker_threads 2 ''r'') =
     Some \<lparr>shared = \<lparr>cond = {}, queue = [], total_size = 16384, pending = 0, done_flag = True,
                     error_occurred = True\<rparr>,
           pcs = [EXIT, EXIT]\<rparr> \<and>
   main_loop example_fs 2 [(''r'', example_sched2)] EXIT_SUCCESS =
     Some (EXIT_FAILURE, [(\<lceil>real_of_int 16384 / 512\<rceil>, ''r'')])"
proof -
  let ?s2 = "\<lparr>shared = \<lparr>cond = {}, queue = [], total_size = 16384, pending = 0,
                 done_flag = True, error_occurred = True\<rparr>, pcs = [EXIT, EXIT]\<rparr>"
  have j: "joined ?s2" by (simp add: joined_def)
  have pos: "0 < (2::nat)" by simp
  have rest: "main_loop example_fs 2 []
      (if error_occurred (shared ?s2) then EXIT_FAILURE else EXIT_SUCCESS) =
      Some (EXIT_FAILURE, [])"
    by simp
  from reported_blocks_are_ceiling [OF example_tree_ok pos example_run2 j rest]
  have "main_loop example_fs 2 [(''r'', example_sched2)] EXIT_SUCCESS =
     Some (EXIT_FAILURE, [(\<lceil>real_of_int 16384 / 512\<rceil>, ''r'')])"
    by simp
  with example_tree_ok example_run2 show ?thesis by blast
qed

lemma dvd_unat_512: "512 dvd unat (512 * k :: 64 word)"
proof -
  have "unat (512 * k :: 64 word) = (512 * unat k) mod 2 ^ 64"
    by (simp add: unat_word_ariths)
  moreover have "(512::nat) dvd 2 ^ 64" by simp
  ultimately show ?thesis by (simp add: dvd_mod)
qed

lemma worker_step_total_size:
  assumes "worker_step fs i s = Some s'"
  shows "total_size (shared s') = total_size (shared s) \<or>
         (\<exists>st :: stat. total_size (shared s') = total_size (shared s) + st_blocks st * 512)"
  using assms
proof (cases rule: worker_step_cases)
  case (nondir p st)
  then have "total_size (shared s') = total_size (shared s) + st_blocks st * 512" by simp
  then show ?thesis by blast
next
  case (isdir p st)
  then have "total_size (shared s') = total_size (shared s) + st_blocks st * 512" by simp
  then show ?thesis by blast
qed simp_all

lemma step_total_size:
  assumes "event_step fs e s = Some s'"
  shows "total_size (shared s') = total_size (shared s) \<or>
         (\<exists>st :: stat. total_size (shared s') = total_size (shared s) + st_blocks st * 512)"
proof (cases e)
  case (Step i)
  with assms have "worker_step fs i s = Some s'" by (simp add: event_step_def)
  then show ?thesis by (rule worker_step_total_size)
next
  case (Wakeup i)
  with assms show ?thesis
    by (auto simp: event_step_def spurious_wakeup_def split: if_splits)
qed

text \<open>
  C8. In every state a traversal can reach, \<open>total_size\<close> is a multiple of 512, and
  whatever happens next either leaves it alone or adds \<open>st_blocks * 512\<close> for some \<^verbatim>\<open>lstat\<close>
  result. Once the workers are joined, the conversion \<open>(total_size + 511) / 512\<close> is exact
  (times 512 it gives \<open>total_size\<close> back) and equals the sum of the \<^verbatim>\<open>st_blocks\<close> of the
  measured nodes.
\<close>

theorem total_size_multiple_of_512:
  assumes tree: "fs_tree fs path0 T" and nodes: "tree_nodes T < 2 ^ 31"
    and blocks: "512 * tree_blocks T < 2 ^ 63"
    and n: "0 < n"
    and run: "run fs sched (start_worker_threads n path0) = Some s"
  shows "512 dvd unat (total_size (shared s)) \<and>
         (\<forall>e s'. event_step fs e s = Some s' \<longrightarrow>
            total_size (shared s') = total_size (shared s) \<or>
            (\<exists>st :: stat. total_size (shared s') = total_size (shared s) + st_blocks st * 512)) \<and>
         (joined s \<longrightarrow>
            sint (total_blocks (total_size (shared s))) * 512 = sint (total_size (shared s)) \<and>
            sint (total_blocks (total_size (shared s))) = int (tree_blocks T))"
proof (intro conjI allI impI)
  from tree nodes run have inv: "traversal_inv fs T s" by (rule reachable_inv)
  define k :: "64 word" where "k = of_nat (tree_blocks T) - of_nat (rem_blocks fs s)"
  from traversal_invD(6) [OF inv]
  have "total_size (shared s) = of_nat (512 * tree_blocks T) - of_nat (512 * rem_blocks fs s)"
    by (simp add: algebra_simps)
  then have "total_size (shared s) = 512 * k"
    unfolding k_def by (simp add: algebra_simps)
  then show "512 dvd unat (total_size (shared s))"
    by (simp only: dvd_unat_512)
next
  fix e s' assume "event_step fs e s = Some s'"
  then show "total_size (shared s') = total_size (shared s) \<or>
        (\<exists>st :: stat. total_size (shared s') = total_size (shared s) + st_blocks st * 512)"
    by (rule step_total_size)
next
  assume j: "joined s"
  have t: "total_size (shared s) = of_nat (512 * tree_blocks T)"
    using tree nodes n run j by (rule joined_total(1))
  show "sint (total_blocks (total_size (shared s))) = int (tree_blocks T)"
    unfolding t using blocks by (rule sint_bytes_of_blocks(2))
  then show "sint (total_blocks (total_size (shared s))) * 512 = sint (total_size (shared s))"
    unfolding t using sint_bytes_of_blocks(1) [OF blocks] by simp
qed

theorem total_size_multiple_of_512_witness:
  "fs_tree example_fs ''r'' example_tree \<and> tree_nodes example_tree < 2 ^ 31 \<and>
   512 * tree_blocks example_tree < 2 ^ 63 \<and>
   run example_fs example_sched2 (start_worker_threads 2 ''r'') =
     Some \<lparr>shared = \<lparr>cond = {}, queue = [], total_size = 16384, pending = 0, done_flag = True,
                     error_occurred = True\<rparr>,
           pcs = [EXIT, EXIT]\<rparr> \<and>
   512 dvd unat (16384 :: 64 word) \<and> sint (total_blocks 16384) * 512 = sint (16384 :: 64 word)"
proof -
  let ?s2 = "\<lparr>shared = \<lparr>cond = {}, queue = [], total_size = 16384, pending = 0,
                 done_flag = True, error_occurred = True\<rparr>, pcs = [EXIT, EXIT]\<rparr>"
  have j: "joined ?s2" by (simp add: joined_def)
  have pos: "0 < (2::nat)" by simp
  from total_size_multiple_of_512 [OF example_tree_ok pos example_run2] j
  have "512 dvd unat (total_size (shared ?s2))"
    and "sint (total_blocks (total_size (shared ?s2))) * 512 = sint (total_size (shared ?s2))"
    by blast+
  then have "512 dvd unat (16384 :: 64 word)"
    and "sint (total_blocks 16384) * 512 = sint (16384 :: 64 word)"
    by simp_all
  with example_tree_ok example_run2 show ?thesis by blast
qed

lemma main_loop_result:
  assumes n: "0 < n"
  shows "list_all2 (fs_tree fs) (map fst ps) Ts \<Longrightarrow> \<forall>T \<in> set Ts. tree_nodes T < 2 ^ 31 \<Longrightarrow>
    main_loop fs n ps c0 = Some (code, lines) \<Longrightarrow>
    map snd lines = map fst ps \<and>
    code = (if \<exists>T \<in> set Ts. tree_errors T then EXIT_FAILURE else c0)"
proof (induction ps arbitrary: Ts c0 code lines)
  case Nil
  then show ?case by simp
next
  case (Cons a ps)
  obtain path0 sched where a: "a = (path0, sched)" by (cases a)
  from Cons.prems(1) a obtain T Ts' where Ts: "Ts = T # Ts'"
    and T: "fs_tree fs path0 T" and Ts': "list_all2 (fs_tree fs) (map fst ps) Ts'"
    by (auto simp: list_all2_Cons1)
  from Cons.prems(2) Ts have b: "tree_nodes T < 2 ^ 31" "\<forall>T \<in> set Ts'. tree_nodes T < 2 ^ 31"
    by simp_all
  from Cons.prems(3) a obtain s lines' where
    run: "run fs sched (start_worker_threads n path0) = Some s" and j: "joined s" and
    rest: "main_loop fs n ps (if error_occurred (shared s) then EXIT_FAILURE else c0) =
             Some (code, lines')" and
    lines: "lines = (sint (total_blocks (total_size (shared s))), path0) # lines'"
    by (auto simp: Let_def split: option.splits if_splits)
  have e: "error_occurred (shared s) = tree_errors T"
    using T b(1) n run j by (rule joined_total(2))
  from Cons.IH [OF Ts' b(2) rest]
  have "map snd lines' = map fst ps"
    and "code = (if \<exists>T \<in> set Ts'. tree_errors T then EXIT_FAILURE
                 else if error_occurred (shared s) then EXIT_FAILURE else c0)"
    by simp_all
  with e a Ts lines show ?case by auto
qed

lemma main_loop_completes:
  assumes n: "0 < n"
  shows "list_all2 (fs_tree fs) paths Ts \<Longrightarrow> \<forall>T \<in> set Ts. tree_nodes T < 2 ^ 31 \<Longrightarrow>
    \<exists>scheds. length scheds = length paths \<and> (\<forall>c0. main_loop fs n (zip paths scheds) c0 \<noteq> None)"
proof (induction paths arbitrary: Ts)
  case Nil
  then show ?case by simp
next
  case (Cons path0 paths)
  from Cons.prems(1) obtain T Ts' where Ts: "Ts = T # Ts'"
    and T: "fs_tree fs path0 T" and Ts': "list_all2 (fs_tree fs) paths Ts'"
    by (auto simp: list_all2_Cons1)
  from Cons.prems(2) Ts have b: "tree_nodes T < 2 ^ 32" "\<forall>T \<in> set Ts'. tree_nodes T < 2 ^ 31"
    by simp_all
  from Cons.IH [OF Ts' b(2)] obtain scheds where
    scheds: "length scheds = length paths" "\<forall>c0. main_loop fs n (zip paths scheds) c0 \<noteq> None"
    by blast
  from start_traversal_inv [OF T, of n] b(1)
  obtain sched s where "run fs sched (start_worker_threads n path0) = Some s" "joined s"
    using complete_run_exists by blast
  note r = this
  have "main_loop fs n (zip (path0 # paths) (sched # scheds)) c0 \<noteq> None" for c0
  proof -
    from scheds(2) obtain res where
      "main_loop fs n (zip paths scheds)
         (if error_occurred (shared s) then EXIT_FAILURE else c0) = Some res"
      by fastforce
    with r show ?thesis by (cases res) (simp add: Let_def)
  qed
  with scheds(1) have "length (sched # scheds) = length (path0 # paths) \<and>
      (\<forall>c0. main_loop fs n (zip (path0 # paths) (sched # scheds)) c0 \<noteq> None)"
    by simp
  then show ?case by blast
qed

text \<open>
  What \<^verbatim>\<open>main\<close> does report: when the options are accepted and a traversal has run for
  every top-level path, the exit status is 0 exactly when no \<^verbatim>\<open>lstat\<close> and no \<^verbatim>\<open>opendir\<close>
  failed below any of the paths, and \<open>EXIT_FAILURE\<close> otherwise; in both cases one line has
  been printed per top-level path, in order, and such a run of \<^verbatim>\<open>main\<close> exists.
\<close>

lemma exit_code_reflects_detected_errors:
  assumes opts: "parse_options opts 1 = Inr n"
    and trees: "list_all2 (fs_tree fs) (parse_paths args) Ts"
    and nodes: "\<forall>T \<in> set Ts. tree_nodes T < 2 ^ 31"
    and len: "length scheds = length (parse_paths args)"
    and main: "mdu_main fs opts args scheds = Some (code, lines)"
  shows "(code = 0 \<longleftrightarrow> (\<forall>T \<in> set Ts. \<not> tree_errors T)) \<and>
         (code \<noteq> 0 \<longrightarrow> code = EXIT_FAILURE) \<and>
         map snd lines = parse_paths args \<and>
         (\<exists>scheds'. length scheds' = length (parse_paths args) \<and>
            mdu_main fs opts args scheds' \<noteq> None)"
proof -
  from parse_options_pos [OF opts] have n: "0 < nat (sint n)" by simp
  let ?ps = "zip (parse_paths args) scheds"
  from len have fst: "map fst ?ps = parse_paths args" by simp
  from main opts have ml: "main_loop fs (nat (sint n)) ?ps EXIT_SUCCESS = Some (code, lines)"
    by (simp add: mdu_main_def)
  from trees fst have "list_all2 (fs_tree fs) (map fst ?ps) Ts" by simp
  from main_loop_result [OF n this nodes ml] fst
  have r: "map snd lines = parse_paths args"
    "code = (if \<exists>T \<in> set Ts. tree_errors T then EXIT_FAILURE else EXIT_SUCCESS)"
    by simp_all
  from main_loop_completes [OF n trees nodes] opts
  have "\<exists>scheds'. length scheds' = length (parse_paths args) \<and>
          mdu_main fs opts args scheds' \<noteq> None"
    by (auto simp: mdu_main_def)
  with r show ?thesis by (auto simp: EXIT_FAILURE_def EXIT_SUCCESS_def)
qed

lemma exit_code_example:
  "mdu_main example_fs [Opt_j ''2''] [''r''] [example_sched2] = Some (1, [(32, ''r'')])"
  by code_simp

text \<open>
  C6 says that the exit status is 0 only if no metadata or enumeration error occurred
  below any top-level path. The program breaks this when \<^verbatim>\<open>readdir\<close> fails in the middle of
  a directory: the loop in \<^verbatim>\<open>handle_directory\<close> takes the \<^verbatim>\<open>NULL\<close> for the end of the directory,
  nothing sets \<^verbatim>\<open>error_occurred\<close>, and \<^verbatim>\<open>main\<close> prints the total of what was seen and returns
  \<^verbatim>\<open>EXIT_SUCCESS\<close>. Here the enumeration of \<^verbatim>\<open>d\<close> breaks off after \<^verbatim>\<open>x\<close>, and the exit status
  is 0 all the same.
\<close>

theorem readdir_failure_exits_zero:
  "readdir_error broken_readdir_fs ''d'' \<and>
   mdu_main broken_readdir_fs [] [''d''] [broken_readdir_sched] = Some (0, [(16, ''d'')])"
proof -
  have "readdir_error broken_readdir_fs ''d''"
    by (simp add: broken_readdir_fs_def)
  moreover have
    "mdu_main broken_readdir_fs [] [''d''] [broken_readdir_sched] = Some (0, [(16, ''d'')])"
    by code_simp
  ultimately show ?thesis by simp
qed

end
